theory Spec2Isabelle
  imports Complex_Main "HOL-Library.Char_ord" "HOL-Library.List_Lexorder" "HOL-Library.Log_Nat"
begin

section \<open>The numeric layer: \<open>double\<close>, \<open>std::stod\<close> and fixed-point output\<close>

text \<open>
  \<^verbatim>\<open>submissions/cpp/solution.cpp\<close> stores every reading as a C++ \<open>double\<close>, parses it
  with \<open>std::stod\<close>, compares with \<open><\<close> (inside \<open>std::minmax_element\<close>), adds with \<open>+\<close>
  (inside \<open>std::accumulate\<close>), divides once per key and prints with
  \<open>std::fixed << std::setprecision(1)\<close>. These are library and hardware operations; they
  are modelled here for IEEE 754 binary64 with round-to-nearest, ties-to-even, as on
  x86-64 Linux with libstdc++ and glibc in the "C" locale.

  A \<open>double\<close> is a sign bit (\<open>True\<close> is negative) with a non-negative rational magnitude,
  an infinity, or a NaN. The sign of zero and of NaN is kept because the output shows it.
\<close>

datatype double = Finite bool rat | Infinity bool | NaN bool

text \<open>\<open>floor_log2 q\<close> is the integer \<open>k\<close> with \<open>2^k \<le> q < 2^(k+1)\<close>, for \<open>q > 0\<close>.\<close>

definition floor_log2 :: "rat \<Rightarrow> int" where
  "floor_log2 q = (if 1 \<le> q then bitlen \<lfloor>q\<rfloor> - 1 else - bitlen (\<lceil>1 / q\<rceil> - 1))"

text \<open>Rounding to the nearest integer, a tie going to the even neighbour.\<close>

definition round_even :: "rat \<Rightarrow> int" where
  "round_even x =
     (let f = \<lfloor>x\<rfloor>; d = x - of_int f
      in if d < 1 / 2 then f else if 1 / 2 < d then f + 1 else if even f then f else f + 1)"

text \<open>
  \<open>round_to e q\<close> rounds the magnitude \<open>q\<close> to a multiple of \<open>2^e\<close>. A binary64 value
  has 53 significant bits and its last place is never finer than \<open>2^-1074\<close>; a
  result of \<open>2^1024\<close> or more overflows to infinity.
\<close>

definition round_to :: "int \<Rightarrow> rat \<Rightarrow> rat" where
  "round_to e q = of_int (round_even (q / 2 powi e)) * 2 powi e"

definition round_double :: "bool \<Rightarrow> rat \<Rightarrow> double" where
  "round_double s q =
     (if q = 0 then Finite s 0
      else let r = round_to (max (floor_log2 q - 52) (- 1074)) q
           in if 2 ^ 1024 \<le> r then Infinity s else Finite s r)"

text \<open>The signed value of a finite double.\<close>

definition signed :: "bool \<Rightarrow> rat \<Rightarrow> rat" where
  "signed s q = (if s then - q else q)"

text \<open>
  \<open>operator<\<close> on doubles: false as soon as one side is NaN; the two zeros are equal.
\<close>

fun dless :: "double \<Rightarrow> double \<Rightarrow> bool" where
  "dless (NaN s) y = False"
| "dless x (NaN t) = False"
| "dless (Infinity s) (Infinity t) = (s \<and> \<not> t)"
| "dless (Infinity s) (Finite t b) = s"
| "dless (Finite s a) (Infinity t) = (\<not> t)"
| "dless (Finite s a) (Finite t b) = (signed s a < signed t b)"

text \<open>
  \<open>operator+\<close>: the exact sum, rounded. An exact zero sum is \<open>-0\<close> only when both
  operands are negative (zeros); a NaN operand is passed on, the first one when both
  are; \<open>inf + -inf\<close> is the default NaN of x86-64, whose sign bit is set.
\<close>

fun dadd :: "double \<Rightarrow> double \<Rightarrow> double" where
  "dadd (NaN s) y = NaN s"
| "dadd x (NaN t) = NaN t"
| "dadd (Infinity s) (Infinity t) = (if s = t then Infinity s else NaN True)"
| "dadd (Infinity s) (Finite t b) = Infinity s"
| "dadd (Finite s a) (Infinity t) = Infinity t"
| "dadd (Finite s a) (Finite t b) =
     (let x = signed s a + signed t b
      in if x = 0 then Finite (s \<and> t) 0 else round_double (x < 0) \<bar>x\<bar>)"

text \<open>\<open>operator/\<close>: the exact quotient, rounded; the sign is the exclusive or of the signs.\<close>

fun ddiv :: "double \<Rightarrow> double \<Rightarrow> double" where
  "ddiv (NaN s) y = NaN s"
| "ddiv x (NaN t) = NaN t"
| "ddiv (Infinity s) (Infinity t) = NaN True"
| "ddiv (Infinity s) (Finite t b) = Infinity (s \<noteq> t)"
| "ddiv (Finite s a) (Infinity t) = Finite (s \<noteq> t) 0"
| "ddiv (Finite s a) (Finite t b) =
     (if b = 0 then (if a = 0 then NaN True else Infinity (s \<noteq> t))
      else round_double (s \<noteq> t) (a / b))"

text \<open>The conversion of \<open>temps.size()\<close> (a \<open>size_t\<close>) to \<open>double\<close>.\<close>

definition double_of_size :: "nat \<Rightarrow> double" where
  "double_of_size n = round_double False (of_nat n)"

subsection \<open>\<open>std::stod\<close>\<close>

text \<open>
  \<open>std::stod\<close> calls \<open>strtod\<close>: leading white space is skipped, then the longest
  prefix that is a number is converted and whatever follows is ignored. The prefix is an
  optional sign followed by decimal digits with an optional point and exponent, or by a
  hexadecimal significand after \<open>0x\<close> with an optional binary exponent, or by \<open>inf\<close>
  or \<open>nan\<close> in any case. With no such prefix \<open>std::stod\<close> throws
  \<open>std::invalid_argument\<close>; when \<open>strtod\<close> reports \<open>ERANGE\<close> (the value overflows,
  or it is below the normal range and not exact) it throws \<open>std::out_of_range\<close>.
\<close>

datatype exn = Invalid_argument | Out_of_range

definition isspace :: "char \<Rightarrow> bool" where
  "isspace c = (c = CHR '' '' \<or> c = CHR 0x09 \<or> c = CHR 0x0A \<or> c = CHR 0x0B
                \<or> c = CHR 0x0C \<or> c = CHR 0x0D)"

definition tolower :: "char \<Rightarrow> char" where
  "tolower c = (if CHR ''A'' \<le> c \<and> c \<le> CHR ''Z'' then char_of (of_char c + (32::nat)) else c)"

definition digit_val :: "char \<Rightarrow> nat option" where
  "digit_val c =
     (if CHR ''0'' \<le> c \<and> c \<le> CHR ''9'' then Some (of_char c - of_char CHR ''0'') else None)"

definition hex_val :: "char \<Rightarrow> nat option" where
  "hex_val c =
     (if CHR ''0'' \<le> c \<and> c \<le> CHR ''9'' then Some (of_char c - of_char CHR ''0'')
      else if CHR ''a'' \<le> tolower c \<and> tolower c \<le> CHR ''f''
      then Some (of_char (tolower c) - of_char CHR ''a'' + 10)
      else None)"

text \<open>
  \<open>scan_digits dv b s acc n\<close> reads digits of base \<open>b\<close> from the front of \<open>s\<close>; it
  returns the accumulated value, the number of digits read and the rest of the text.
\<close>

fun scan_digits :: "(char \<Rightarrow> nat option) \<Rightarrow> nat \<Rightarrow> string \<Rightarrow> nat \<Rightarrow> nat \<Rightarrow> nat \<times> nat \<times> string" where
  "scan_digits dv b [] acc n = (acc, n, [])"
| "scan_digits dv b (c # cs) acc n =
     (case dv c of
        Some d \<Rightarrow> scan_digits dv b cs (acc * b + d) (Suc n)
      | None \<Rightarrow> (acc, n, c # cs))"

text \<open>
  A significand: digits, optionally a point and more digits, at least one digit in all.
  The result is the value of all the digits read as one integer, the number of digits
  after the point, and the rest of the text.
\<close>

definition scan_mantissa :: "(char \<Rightarrow> nat option) \<Rightarrow> nat \<Rightarrow> string \<Rightarrow> (nat \<times> nat \<times> string) option" where
  "scan_mantissa dv b s =
     (case scan_digits dv b s 0 0 of
        (i, ni, r1) \<Rightarrow>
          (case r1 of
             c # r2 \<Rightarrow>
               if c = CHR ''.''
               then (case scan_digits dv b r2 i 0 of
                       (m, nf, r3) \<Rightarrow> if ni + nf = 0 then None else Some (m, nf, r3))
               else if ni = 0 then None else Some (i, 0, r1)
           | [] \<Rightarrow> if ni = 0 then None else Some (i, 0, r1)))"

text \<open>An optional sign: whether it is a minus, and the text after it.\<close>

definition scan_sign :: "string \<Rightarrow> bool \<times> string" where
  "scan_sign s =
     (case s of
        [] \<Rightarrow> (False, [])
      | c # t \<Rightarrow> if c = CHR ''-'' then (True, t)
                 else if c = CHR ''+'' then (False, t) else (False, c # t))"

text \<open>
  An exponent part: the marker (\<open>e\<close> or \<open>p\<close>, in either case), an optional sign and
  at least one decimal digit. Anything else is not an exponent and counts as 0.
\<close>

definition scan_exponent :: "char \<Rightarrow> string \<Rightarrow> int" where
  "scan_exponent mark s =
     (case s of
        [] \<Rightarrow> 0
      | c # r \<Rightarrow>
          if tolower c \<noteq> mark then 0
          else (case scan_sign r of
                  (neg, r') \<Rightarrow>
                    (case scan_digits digit_val 10 r' 0 0 of
                       (v, n, _) \<Rightarrow> if n = 0 then 0 else if neg then - int v else int v)))"

definition prefix_nocase :: "string \<Rightarrow> string \<Rightarrow> bool" where
  "prefix_nocase p s = (map tolower (take (length p) s) = p)"

datatype parsed = PNum rat | PInf | PNan

definition scan_number :: "string \<Rightarrow> parsed option" where
  "scan_number s =
     (case (if prefix_nocase ''0x'' s then scan_mantissa hex_val 16 (drop 2 s) else None) of
        Some (m, nf, r) \<Rightarrow>
          Some (PNum (of_nat m * 2 powi (scan_exponent CHR ''p'' r - 4 * int nf)))
      | None \<Rightarrow>
          (case scan_mantissa digit_val 10 s of
             Some (m, nf, r) \<Rightarrow>
               Some (PNum (of_nat m * 10 powi (scan_exponent CHR ''e'' r - int nf)))
           | None \<Rightarrow>
               if prefix_nocase ''inf'' s then Some PInf
               else if prefix_nocase ''nan'' s then Some PNan
               else None))"

text \<open>
  The value is rounded to the nearest double, and \<open>ERANGE\<close> is an overflow, or a
  nonzero value that is still below \<open>2^-1022\<close> after rounding to 53 bits and that the
  result does not represent exactly. Below the normal range the conversion of
  glibc 2.36 does not see the bit that follows the 53rd significant bit of the value:
  it converts the value without that bit (later versions of the library see it).
\<close>

definition below_normal :: "rat \<Rightarrow> bool" where
  "below_normal q = (q \<noteq> 0 \<and> round_to (floor_log2 q - 52) q < 2 powi (- 1022))"

definition drop_guard_bit :: "rat \<Rightarrow> rat" where
  "drop_guard_bit q =
     (let w = 2 powi (floor_log2 q - 53) in q - of_int (\<lfloor>q / w\<rfloor> mod 2) * w)"

definition strtod_seen :: "rat \<Rightarrow> rat" where
  "strtod_seen q = (if below_normal q then drop_guard_bit q else q)"

definition erange :: "rat \<Rightarrow> bool" where
  "erange q =
     (q \<noteq> 0 \<and>
      (2 ^ 1024 \<le> round_to (floor_log2 q - 52) q
       \<or> (below_normal q \<and> round_to (- 1074) (strtod_seen q) \<noteq> strtod_seen q)))"

definition stod :: "string \<Rightarrow> exn + double" where
  "stod str =
     (case scan_sign (dropWhile isspace str) of
        (neg, body) \<Rightarrow>
          (case scan_number body of
             None \<Rightarrow> Inl Invalid_argument
           | Some PInf \<Rightarrow> Inr (Infinity neg)
           | Some PNan \<Rightarrow> Inr (NaN neg)
           | Some (PNum q) \<Rightarrow>
               if erange q then Inl Out_of_range
               else Inr (round_double neg (strtod_seen q))))"

subsection \<open>Output with \<open>std::fixed << std::setprecision(1)\<close>\<close>

text \<open>
  The stream prints a double as \<open>printf("%.1f")\<close> does: the exact binary value rounded
  to one decimal, ties to even, with a minus sign whenever the sign bit is set, and
  \<open>inf\<close> or \<open>nan\<close> for the special values.
\<close>

fun show_nat :: "nat \<Rightarrow> string" where
  "show_nat n =
     (if n < 10 then [char_of (n + 48)] else show_nat (n div 10) @ [char_of (n mod 10 + 48)])"

definition show_sign :: "bool \<Rightarrow> string" where
  "show_sign s = (if s then ''-'' else [])"

fun fmt_fixed1 :: "double \<Rightarrow> string" where
  "fmt_fixed1 (NaN s) = show_sign s @ ''nan''"
| "fmt_fixed1 (Infinity s) = show_sign s @ ''inf''"
| "fmt_fixed1 (Finite s q) =
     (let t = nat (round_even (q * 10))
      in show_sign s @ show_nat (t div 10) @ ''.'' @ show_nat (t mod 10))"

section \<open>The program\<close>

subsection \<open>The input file\<close>

text \<open>
  The file system is what \<open>std::ifstream::open\<close> sees of it: a file name either cannot
  be opened, or it opens and yields its bytes. \<open>main\<close> tries the three candidate names in
  order and keeps the first stream that is open.
\<close>

type_synonym filesystem = "string \<Rightarrow> string option"

definition input_files :: "string list" where
  "input_files = [''data/measurements_1m.txt'', ''data/measurements.txt'',
                  ''data/test_measurements.txt'']"

fun open_first :: "filesystem \<Rightarrow> string list \<Rightarrow> string option" where
  "open_first fs [] = None"
| "open_first fs (filename # rest) =
     (case fs filename of Some content \<Rightarrow> Some content | None \<Rightarrow> open_first fs rest)"

text \<open>
  \<open>getlines content\<close> is the sequence of lines that the successive calls of
  \<open>std::getline(file, line)\<close> return before one fails. A line ends at a newline, which
  is dropped; text after the last newline is a line too; at the end of the file a call
  that extracts nothing fails and the loop stops. \<open>getlines_from cur s\<close> has already
  read the characters \<open>cur\<close> (latest first) of the current line.
\<close>

fun getlines_from :: "string \<Rightarrow> string \<Rightarrow> string list" where
  "getlines_from cur [] = (if cur = [] then [] else [rev cur])"
| "getlines_from cur (c # cs) =
     (if c = CHR 0x0A then rev cur # getlines_from [] cs else getlines_from (c # cur) cs)"

definition getlines :: "string \<Rightarrow> string list" where
  "getlines content = getlines_from [] content"

subsection \<open>The loop over the lines\<close>

text \<open>\<open>line.find('=')\<close>: the index of the first \<open>=\<close>, or \<open>None\<close> for \<open>npos\<close>.\<close>

fun find_chr :: "char \<Rightarrow> string \<Rightarrow> nat option" where
  "find_chr d [] = None"
| "find_chr d (c # cs) =
     (if c = d then Some 0 else (case find_chr d cs of None \<Rightarrow> None | Some i \<Rightarrow> Some (Suc i)))"

text \<open>
  \<open>stations\<close> is a \<open>std::map<std::string, std::vector<double>>\<close>: its entries are
  kept in ascending order of the keys, compared byte by byte, with one entry per key.
  \<open>push_back_at station temp\<close> is \<open>stations[station].push_back(temp)\<close>: the entry is
  created with an empty vector when the key is new, and the value is appended.
\<close>

type_synonym stations = "(string \<times> double list) list"

fun push_back_at :: "string \<Rightarrow> double \<Rightarrow> stations \<Rightarrow> stations" where
  "push_back_at station temp [] = [(station, [temp])]"
| "push_back_at station temp ((k, temps) # rest) =
     (if station = k then (k, temps @ [temp]) # rest
      else if station < k then (station, [temp]) # (k, temps) # rest
      else (k, temps) # push_back_at station temp rest)"

text \<open>
  The body of the \<open>while\<close> loop. A line without \<open>=\<close> changes nothing. Otherwise the
  text after the first \<open>=\<close> goes to \<open>std::stod\<close>, whose exception nothing catches.
\<close>

definition process_line :: "stations \<Rightarrow> string \<Rightarrow> exn + stations" where
  "process_line st line =
     (case find_chr CHR ''='' line of
        None \<Rightarrow> Inr st
      | Some pos \<Rightarrow>
          (case stod (drop (pos + 1) line) of
             Inl e \<Rightarrow> Inl e
           | Inr temp \<Rightarrow> Inr (push_back_at (take pos line) temp st)))"

fun read_loop :: "stations \<Rightarrow> string list \<Rightarrow> exn + stations" where
  "read_loop st [] = Inr st"
| "read_loop st (line # rest) =
     (case process_line st line of Inl e \<Rightarrow> Inl e | Inr st' \<Rightarrow> read_loop st' rest)"

subsection \<open>The report\<close>

text \<open>
  \<open>std::minmax_element\<close> as libstdc++ implements it: the first two elements are
  compared, then the elements are taken two at a time, the smaller of a pair against the
  minimum and the larger against the maximum; an odd last element is compared alone.
  The minimum moves on \<open><\<close>, the maximum on \<open>not <\<close>. The model returns the two
  elements the iterators point to; on an empty range both iterators are \<open>end\<close>, and
  there is nothing to return.
\<close>

fun minmax_loop :: "double \<Rightarrow> double \<Rightarrow> double list \<Rightarrow> double \<times> double" where
  "minmax_loop mn mx [] = (mn, mx)"
| "minmax_loop mn mx [x] =
     (if dless x mn then (x, mx) else if \<not> dless x mx then (mn, x) else (mn, mx))"
| "minmax_loop mn mx (x # y # rest) =
     (if dless y x
      then minmax_loop (if dless y mn then y else mn) (if \<not> dless x mx then x else mx) rest
      else minmax_loop (if dless x mn then x else mn) (if \<not> dless y mx then y else mx) rest)"

fun minmax_element :: "double list \<Rightarrow> (double \<times> double) option" where
  "minmax_element [] = None"
| "minmax_element [x] = Some (x, x)"
| "minmax_element (x # y # rest) =
     Some (if dless y x then minmax_loop y x rest else minmax_loop x y rest)"

text \<open>\<open>std::accumulate(temps.begin(), temps.end(), 0.0)\<close>.\<close>

definition accumulate :: "double list \<Rightarrow> double" where
  "accumulate temps = foldl dadd (Finite False 0) temps"

definition mean_of :: "double list \<Rightarrow> double" where
  "mean_of temps = ddiv (accumulate temps) (double_of_size (length temps))"

text \<open>
  One iteration of the output loop: the line written for an entry, ended by
  \<open>std::endl\<close>. The entry of a key is never empty (\<open>push_back_at\<close> creates it with a
  value), so the iterators are dereferenced safely; the model writes nothing for an
  empty vector.
\<close>

definition report_line :: "string \<times> double list \<Rightarrow> string" where
  "report_line entry =
     (case minmax_element (snd entry) of
        None \<Rightarrow> []
      | Some (mn, mx) \<Rightarrow>
          fst entry @ ''='' @ fmt_fixed1 mn @ ''/'' @ fmt_fixed1 (mean_of (snd entry)) @ ''/''
            @ fmt_fixed1 mx @ [CHR 0x0A])"

definition report :: "stations \<Rightarrow> string" where
  "report st = concat (map report_line st)"

subsection \<open>\<open>main\<close>\<close>

text \<open>
  A run that returns from \<open>main\<close> has an exit code and the text it wrote to standard
  output and to standard error. A run in which \<open>std::stod\<close> throws ends in
  \<open>std::terminate\<close> instead: the process is aborted, and since the report is only
  written after the loop, it has written nothing to standard output.
\<close>

record result =
  exit_code :: int
  stdout :: string
  stderr :: string

definition main :: "filesystem \<Rightarrow> exn + result" where
  "main fs =
     (case open_first fs input_files of
        None \<Rightarrow>
          Inr \<lparr>exit_code = 1, stdout = [],
               stderr = ''Error: Could not open file'' @ [CHR 0x0A]\<rparr>
      | Some content \<Rightarrow>
          (case read_loop [] (getlines content) of
             Inl e \<Rightarrow> Inl e
           | Inr st \<Rightarrow> Inr \<lparr>exit_code = 0, stdout = report st, stderr = []\<rparr>))"

section \<open>Notions used to state the properties\<close>

text \<open>
  The key and the value text of a line that contains \<open>=\<close>: what stands before the
  first \<open>=\<close> and what stands after it.
\<close>

definition key_of :: "string \<Rightarrow> string" where
  "key_of line = takeWhile (\<lambda>c. c \<noteq> CHR ''='') line"

definition value_of :: "string \<Rightarrow> string" where
  "value_of line = tl (dropWhile (\<lambda>c. c \<noteq> CHR ''='') line)"

text \<open>The number of values that \<open>stations\<close> holds in its vectors.\<close>

definition retained :: "stations \<Rightarrow> nat" where
  "retained st = sum_list (map (\<lambda>entry. length (snd entry)) st)"

text \<open>A file system in which \<open>data/measurements.txt\<close> is the only file.\<close>

definition single_file :: "string \<Rightarrow> filesystem" where
  "single_file content =
     (\<lambda>name. if name = ''data/measurements.txt'' then Some content else None)"

text \<open>
  The order \<open>\<le>\<close> of IEEE 754 (false when a side is NaN), the rational value of a
  finite double, and the two classes of doubles that the statements single out.
\<close>

fun is_nan :: "double \<Rightarrow> bool" where
  "is_nan (NaN s) = True"
| "is_nan (Infinity s) = False"
| "is_nan (Finite s a) = False"

fun is_finite :: "double \<Rightarrow> bool" where
  "is_finite (Finite s a) = True"
| "is_finite (Infinity s) = False"
| "is_finite (NaN s) = False"

definition dle :: "double \<Rightarrow> double \<Rightarrow> bool" where
  "dle x y = (\<not> is_nan x \<and> \<not> is_nan y \<and> \<not> dless y x)"

fun dval :: "double \<Rightarrow> rat" where
  "dval (Finite s a) = signed s a"
| "dval (Infinity s) = 0"
| "dval (NaN s) = 0"

text \<open>
  The distance that rounding can put between the computed mean of \<open>n\<close> finite values of
  magnitude at most \<open>b\<close> and their exact mean. Each of the \<open>n\<close> additions and the
  division has a relative error of at most \<open>2^-53\<close>, the unit roundoff, or below the
  normal range (whose least member is \<open>2^-1022\<close>) an absolute error of at most
  \<open>2^-1075\<close>, the product of the two.
\<close>

definition unit_roundoff :: rat where
  "unit_roundoff = 1 / 2 ^ 53"

definition min_normal :: rat where
  "min_normal = 1 / 2 ^ 1022"

definition mean_tolerance :: "nat \<Rightarrow> rat \<Rightarrow> rat" where
  "mean_tolerance n b =
     ((1 + unit_roundoff) ^ (n + 1) - 1) * (b + min_normal) + unit_roundoff * min_normal"

text \<open>
  The number that a printed field denotes: an optional sign, decimal digits, a point and
  decimal digits, and nothing after them. It is read from the text alone; \<open>inf\<close> and
  \<open>nan\<close> denote no number.
\<close>

definition read_fixed1 :: "string \<Rightarrow> rat option" where
  "read_fixed1 text =
     (case scan_sign text of
        (neg, body) \<Rightarrow>
          (case scan_mantissa digit_val 10 body of
             None \<Rightarrow> None
           | Some (m, nf, rest) \<Rightarrow>
               if rest = [] then Some (signed neg (of_nat m / 10 ^ nf)) else None))"

text \<open>
  The number that the printed field of a finite double denotes (lemma
  \<open>read_fixed1_fmt\<close> below), and the well-formed doubles: those whose magnitude is not
  negative, as every double that the program stores or computes is.
\<close>

fun printed_value :: "double \<Rightarrow> rat" where
  "printed_value (Finite s q) = signed s (of_nat (nat (round_even (q * 10))) / 10)"
| "printed_value (Infinity s) = 0"
| "printed_value (NaN s) = 0"

fun mag_ok :: "double \<Rightarrow> bool" where
  "mag_ok (Finite s q) = (0 \<le> q)"
| "mag_ok (Infinity s) = True"
| "mag_ok (NaN s) = True"

section \<open>Facts about the numeric layer\<close>

lemma round_even_of_int: "round_even (of_int n) = n"
  by (simp add: round_even_def)

lemma floor_log2_ge1:
  assumes "1 \<le> q"
  shows "2 powi floor_log2 q \<le> q \<and> q < 2 powi (floor_log2 q + 1)"
proof -
  let ?f = "\<lfloor>q\<rfloor>"
  have f: "0 < ?f" using assms by simp
  from bitlen_bounds[OF f] have b: "2 ^ nat (bitlen ?f - 1) \<le> ?f" "?f < 2 ^ nat (bitlen ?f)" by auto
  have b1: "1 \<le> bitlen ?f" using f by (simp add: bitlen_alt_def)
  have k: "floor_log2 q = bitlen ?f - 1" using assms by (simp add: floor_log2_def)
  have "(2::rat) ^ nat (bitlen ?f - 1) = of_int (2 ^ nat (bitlen ?f - 1))" by simp
  also have "\<dots> \<le> of_int ?f" using b(1) by (simp only: of_int_le_iff)
  also have "\<dots> \<le> q" by simp
  finally have lo: "2 powi floor_log2 q \<le> q" using b1 by (simp add: k power_int_def)
  have "?f + 1 \<le> 2 ^ nat (bitlen ?f)" using b(2) by simp
  then have "(of_int (?f + 1) :: rat) \<le> of_int (2 ^ nat (bitlen ?f))" by (simp only: of_int_le_iff)
  moreover have "q < of_int (?f + 1)" by linarith
  ultimately have "q < 2 ^ nat (bitlen ?f)" by simp
  then have hi: "q < 2 powi (floor_log2 q + 1)" using b1 by (simp add: k power_int_def)
  from lo hi show ?thesis by simp
qed

lemma floor_log2_lt1:
  assumes "0 < q" "q < 1"
  shows "2 powi floor_log2 q \<le> q \<and> q < 2 powi (floor_log2 q + 1)"
proof -
  let ?c = "\<lceil>1 / q\<rceil> - 1"
  have r: "1 < 1 / q" using assms by simp
  then have c: "0 < ?c" by linarith
  from bitlen_bounds[OF c] have b: "2 ^ nat (bitlen ?c - 1) \<le> ?c" "?c < 2 ^ nat (bitlen ?c)" by auto
  have b1: "1 \<le> bitlen ?c" using c by (simp add: bitlen_alt_def)
  have k: "floor_log2 q = - bitlen ?c" using assms by (simp add: floor_log2_def)
  have "?c + 1 \<le> 2 ^ nat (bitlen ?c)" using b(2) by simp
  then have "(of_int (?c + 1) :: rat) \<le> of_int (2 ^ nat (bitlen ?c))" by (simp only: of_int_le_iff)
  then have "(of_int (?c + 1) :: rat) \<le> 2 ^ nat (bitlen ?c)" by simp
  moreover have "1 / q \<le> of_int (?c + 1)" by linarith
  ultimately have "1 / q \<le> 2 ^ nat (bitlen ?c)" by (rule order_trans[rotated])
  then have "1 \<le> 2 ^ nat (bitlen ?c) * q" using assms(1) by (simp add: field_simps)
  then have "1 / 2 ^ nat (bitlen ?c) \<le> q" by (simp add: field_simps)
  then have lo: "2 powi floor_log2 q \<le> q" using b1 by (simp add: k power_int_def field_simps)
  have "(2::rat) ^ nat (bitlen ?c - 1) = of_int (2 ^ nat (bitlen ?c - 1))" by simp
  also have "\<dots> \<le> of_int ?c" using b(1) by (simp only: of_int_le_iff)
  also have "\<dots> < 1 / q" by linarith
  finally have "2 ^ nat (bitlen ?c - 1) * q < 1" using assms(1) by (simp add: field_simps)
  then have "q < 1 / 2 ^ nat (bitlen ?c - 1)" by (simp add: field_simps)
  then have hi: "q < 2 powi (floor_log2 q + 1)" using b1
    by (auto simp add: k power_int_def field_simps nat_diff_distrib)
  from lo hi show ?thesis by simp
qed

lemma floor_log2_bounds:
  assumes "0 < q"
  shows "2 powi floor_log2 q \<le> q" and "q < 2 powi (floor_log2 q + 1)"
  using floor_log2_ge1[of q] floor_log2_lt1[of q] assms by (cases "1 \<le> q"; simp)+

lemma floor_log2_unique:
  assumes "2 powi k \<le> q" "q < 2 powi (k + 1)"
  shows "floor_log2 q = k"
proof -
  have "(0::rat) < 2 powi k" by simp
  with assms(1) have q: "0 < q" by linarith
  note b = floor_log2_bounds[OF q]
  have "\<not> floor_log2 q < k"
  proof
    assume "floor_log2 q < k"
    then have "floor_log2 q + 1 \<le> k" by simp
    then have "(2::rat) powi (floor_log2 q + 1) \<le> 2 powi k" by (intro power_int_increasing) auto
    with b(2) assms(1) show False by linarith
  qed
  moreover have "\<not> k < floor_log2 q"
  proof
    assume "k < floor_log2 q"
    then have "k + 1 \<le> floor_log2 q" by simp
    then have "(2::rat) powi (k + 1) \<le> 2 powi floor_log2 q" by (intro power_int_increasing) auto
    with b(1) assms(2) show False by linarith
  qed
  ultimately show ?thesis by simp
qed


lemma round_to_exact:
  assumes "q / 2 powi e \<in> \<int>"
  shows "round_to e q = q"
proof -
  from assms obtain n where n: "q / 2 powi e = of_int n" by (auto elim: Ints_cases)
  have nz: "(2::rat) powi e \<noteq> 0" by simp
  show ?thesis unfolding round_to_def n round_even_of_int using n nz
    by (metis nonzero_divide_eq_eq)
qed

lemma round_double_exact:
  assumes "2 powi k \<le> q" "q < 2 powi (k + 1)" "- 1022 \<le> k" "k \<le> 1023"
    and "q / 2 powi (k - 52) \<in> \<int>"
  shows "round_double s q = Finite s q" and "\<not> erange q" and "strtod_seen q = q"
proof -
  have "(0::rat) < 2 powi k" by simp
  with assms(1) have q: "0 < q" by linarith
  have fl: "floor_log2 q = k" using assms(1,2) by (rule floor_log2_unique)
  have mx: "max (k - 52) (- 1074) = k - 52" using assms(3) by simp
  have rt: "round_to (k - 52) q = q" using assms(5) by (rule round_to_exact)
  have "(2::rat) powi (k + 1) \<le> 2 powi 1024" using assms(4) by (intro power_int_increasing) auto
  with assms(2) have hi: "q < 2 ^ 1024" by simp
  have "(2::rat) powi (- 1022) \<le> 2 powi k" using assms(3) by (intro power_int_increasing) auto
  with assms(1) have lo: "2 powi (- 1022) \<le> q" by linarith
  show "round_double s q = Finite s q"
    using q hi by (simp add: round_double_def fl mx rt)
  have nb: "\<not> below_normal q"
    using lo by (simp add: below_normal_def fl rt)
  show "\<not> erange q"
    using q hi nb by (simp add: erange_def fl rt)
  show "strtod_seen q = q"
    using nb by (simp add: strtod_seen_def)
qed

lemma round_double_small:
  fixes k :: nat
  assumes "k \<le> 52" "2 ^ k \<le> q" "q < 2 ^ (k + 1)" "q * 2 ^ (52 - k) \<in> \<int>"
  shows "round_double s q = Finite s q" and "\<not> erange q" and "strtod_seen q = q"
proof -
  have p: "(2::rat) powi (int k - 52) = 1 / 2 ^ (52 - k)"
    using assms(1) by (simp add: power_int_def nat_diff_distrib field_simps power_inverse of_nat_diff)
  have a: "2 powi (int k) \<le> q" using assms(2) by simp
  have b: "q < 2 powi (int k + 1)" using assms(3) by (simp add: power_int_def nat_add_distrib)
  have c: "q / 2 powi (int k - 52) \<in> \<int>" using assms(4) by (simp add: p)
  show "round_double s q = Finite s q" by (rule round_double_exact(1)[OF a b _ _ c]) (use assms(1) in auto)
  show "\<not> erange q" by (rule round_double_exact(2)[OF a b _ _ c]) (use assms(1) in auto)
  show "strtod_seen q = q" by (rule round_double_exact(3)[OF a b _ _ c]) (use assms(1) in auto)
qed

lemma round_double_values:
  "round_double s 1 = Finite s 1"
  "round_double s 2 = Finite s 2"
  "round_double s 5 = Finite s 5"
  "round_double s 10 = Finite s 10"
  "round_double s 15 = Finite s 15"
  "round_double s 20 = Finite s 20"
  "round_double s (15 / 2) = Finite s (15 / 2)"
  "round_double s (3 / 2) = Finite s (3 / 2)"
  using round_double_small(1)[of 0 1 s] round_double_small(1)[of 1 2 s]
    round_double_small(1)[of 2 5 s] round_double_small(1)[of 3 10 s]
    round_double_small(1)[of 3 15 s] round_double_small(1)[of 4 20 s]
    round_double_small(1)[of 2 "15 / 2" s] round_double_small(1)[of 0 "3 / 2" s]
  by simp_all

lemma erange_values:
  "\<not> erange 1" "\<not> erange 2" "\<not> erange 5" "\<not> erange 10" "\<not> erange 20" "\<not> erange (3 / 2)"
  using round_double_small(2)[of 0 1] round_double_small(2)[of 1 2]
    round_double_small(2)[of 2 5] round_double_small(2)[of 3 10]
    round_double_small(2)[of 4 20] round_double_small(2)[of 0 "3 / 2"]
  by simp_all

lemma strtod_seen_values:
  "strtod_seen 1 = 1" "strtod_seen 2 = 2" "strtod_seen 5 = 5" "strtod_seen 10 = 10"
  "strtod_seen 20 = 20" "strtod_seen (3 / 2) = 3 / 2"
  using round_double_small(3)[of 0 1] round_double_small(3)[of 1 2]
    round_double_small(3)[of 2 5] round_double_small(3)[of 3 10]
    round_double_small(3)[of 4 20] round_double_small(3)[of 0 "3 / 2"]
  by simp_all

subsection \<open>Values used in the scenarios\<close>

lemma stod_values:
  "stod ''10.0'' = Inr (Finite False 10)"
  "stod ''20.0'' = Inr (Finite False 20)"
  "stod ''5.0'' = Inr (Finite False 5)"
  "stod ''1.0'' = Inr (Finite False 1)"
  "stod ''2.0'' = Inr (Finite False 2)"
  "stod ''1.5abc'' = Inr (Finite False (3 / 2))"
proof -
  have d: "dropWhile isspace ''10.0'' = ''10.0''" "dropWhile isspace ''20.0'' = ''20.0''"
    "dropWhile isspace ''5.0'' = ''5.0''" "dropWhile isspace ''1.0'' = ''1.0''"
    "dropWhile isspace ''2.0'' = ''2.0''"
    "dropWhile isspace ''1.5abc'' = ''1.5abc''"
    by code_simp+
  have n: "scan_number ''10.0'' = Some (PNum 10)" "scan_number ''20.0'' = Some (PNum 20)"
    "scan_number ''5.0'' = Some (PNum 5)" "scan_number ''1.0'' = Some (PNum 1)"
    "scan_number ''2.0'' = Some (PNum 2)"
    "scan_number ''1.5abc'' = Some (PNum (3 / 2))"
    by code_simp+
  show "stod ''10.0'' = Inr (Finite False 10)"
  "stod ''20.0'' = Inr (Finite False 20)"
  "stod ''5.0'' = Inr (Finite False 5)"
  "stod ''1.0'' = Inr (Finite False 1)"
  "stod ''2.0'' = Inr (Finite False 2)"
  "stod ''1.5abc'' = Inr (Finite False (3 / 2))"
    unfolding stod_def d
    by (simp_all add: scan_sign_def n erange_values strtod_seen_values round_double_values)
qed

lemma stod_abc: "stod ''abc'' = Inl Invalid_argument"
  by code_simp

lemma stod_nan: "stod ''nan'' = Inr (NaN False)"
  by code_simp

lemma fmt_values:
  "fmt_fixed1 (Finite False 10) = ''10.0''"
  "fmt_fixed1 (Finite False 20) = ''20.0''"
  "fmt_fixed1 (Finite False 5) = ''5.0''"
  "fmt_fixed1 (Finite False 1) = ''1.0''"
  "fmt_fixed1 (Finite False 2) = ''2.0''"
  "fmt_fixed1 (Finite False (15 / 2)) = ''7.5''"
  "fmt_fixed1 (Finite False (3 / 2)) = ''1.5''"
  by code_simp+


lemma mean_values:
  "mean_of [Finite False 10, Finite False 5] = Finite False (15 / 2)"
  "mean_of [Finite False 20] = Finite False 20"
  "mean_of [Finite False (3 / 2)] = Finite False (3 / 2)"
  "mean_of [Finite False 1] = Finite False 1"
  "mean_of [Finite False 2] = Finite False 2"
  "mean_of [Finite False 5] = Finite False 5"
  by (simp_all add: mean_of_def accumulate_def double_of_size_def signed_def round_double_values)

section \<open>Facts about the loop and the table of stations\<close>

lemma find_chr_None_iff: "find_chr d l = None \<longleftrightarrow> d \<notin> set l"
  by (induction l) (auto split: option.splits)

lemma find_chr_Some:
  "find_chr d l = Some pos \<Longrightarrow>
     take pos l = takeWhile (\<lambda>c. c \<noteq> d) l \<and> drop (pos + 1) l = tl (dropWhile (\<lambda>c. c \<noteq> d) l)"
  by (induction l arbitrary: pos) (auto split: option.splits if_splits)

lemma process_line_skip: "CHR ''='' \<notin> set line \<Longrightarrow> process_line st line = Inr st"
  by (simp add: process_line_def find_chr_None_iff[symmetric])

lemma process_line_record:
  "CHR ''='' \<in> set line \<Longrightarrow>
   process_line st line =
     (case stod (value_of line) of
        Inl e \<Rightarrow> Inl e
      | Inr temp \<Rightarrow> Inr (push_back_at (key_of line) temp st))"
proof -
  assume "CHR ''='' \<in> set line"
  then obtain pos where p: "find_chr CHR ''='' line = Some pos"
    using find_chr_None_iff[of "CHR ''=''" line] by auto
  from find_chr_Some[OF p] show ?thesis
    by (simp add: process_line_def p key_of_def value_of_def split: sum.splits)
qed

lemma read_loop_append:
  "read_loop st (xs @ ys) =
     (case read_loop st xs of Inl e \<Rightarrow> Inl e | Inr st' \<Rightarrow> read_loop st' ys)"
  by (induction xs arbitrary: st) (auto split: sum.splits)

lemma keys_push_back_at:
  "set (map fst (push_back_at k v st)) = insert k (set (map fst st))"
  by (induction k v st rule: push_back_at.induct) auto

lemma keys_push_back_at_image:
  "fst ` set (push_back_at k v st) = insert k (fst ` set st)"
  using keys_push_back_at[of k v st] by simp

lemma sorted_push_back_at:
  "sorted_wrt (<) (map fst st) \<Longrightarrow> sorted_wrt (<) (map fst (push_back_at k v st))"
proof (induction k v st rule: push_back_at.induct)
  case (1 station temp)
  then show ?case by simp
next
  case (2 station temp k temps rest)
  have "\<forall>x \<in> set (map fst (push_back_at station temp rest)). k < x" if "k < station"
    using "2.prems" that unfolding keys_push_back_at by auto
  with 2 show ?case
    by auto
qed

lemma nonempty_push_back_at:
  "\<forall>e \<in> set st. snd e \<noteq> [] \<Longrightarrow> e \<in> set (push_back_at k v st) \<Longrightarrow> snd e \<noteq> []"
  by (induction k v st rule: push_back_at.induct) (auto split: if_splits)

lemma retained_push_back_at: "retained (push_back_at k v st) = Suc (retained st)"
  by (induction k v st rule: push_back_at.induct) (auto simp: retained_def)

lemma value_in_push_back_at: "\<exists>temps. (k, temps) \<in> set (push_back_at k v st) \<and> v \<in> set temps"
proof (induction k v st rule: push_back_at.induct)
  case (1 station temp)
  then show ?case by simp
next
  case (2 station temp k temps rest)
  show ?case
  proof (cases "station = k")
    case True
    then show ?thesis by auto
  next
    case False
    then show ?thesis using 2 by (cases "station < k") auto
  qed
qed

lemma process_line_cases:
  assumes "process_line st line = Inr st'"
  shows "(CHR ''='' \<notin> set line \<and> st' = st) \<or>
         (CHR ''='' \<in> set line \<and>
          (\<exists>temp. stod (value_of line) = Inr temp \<and> st' = push_back_at (key_of line) temp st))"
proof (cases "CHR ''='' \<in> set line")
  case True
  with assms show ?thesis by (auto simp: process_line_record split: sum.splits)
next
  case False
  with assms show ?thesis by (simp add: process_line_skip)
qed

lemma read_loop_Cons_Inr:
  "read_loop st (line # rest) = Inr st' \<Longrightarrow>
     \<exists>st1. process_line st line = Inr st1 \<and> read_loop st1 rest = Inr st'"
  by (auto split: sum.splits)

lemma read_loop_keys:
  "read_loop st lines = Inr st' \<Longrightarrow>
     fst ` set st' = fst ` set st \<union> key_of ` {l \<in> set lines. CHR ''='' \<in> set l}"
proof (induction lines arbitrary: st)
  case Nil
  then show ?case by simp
next
  case (Cons line rest)
  from read_loop_Cons_Inr[OF Cons.prems] obtain st1
    where p: "process_line st line = Inr st1" and r: "read_loop st1 rest = Inr st'" by blast
  have split: "{l \<in> set (line # rest). CHR ''='' \<in> set l}
      = {l \<in> {line}. CHR ''='' \<in> set l} \<union> {l \<in> set rest. CHR ''='' \<in> set l}"
    by auto
  have "fst ` set st1 = fst ` set st \<union> key_of ` {l \<in> {line}. CHR ''='' \<in> set l}"
  proof (cases "CHR ''='' \<in> set line")
    case True
    then have one: "{l \<in> {line}. CHR ''='' \<in> set l} = {line}" by auto
    from process_line_cases[OF p] True obtain temp
      where "st1 = push_back_at (key_of line) temp st" by blast
    then have "fst ` set st1 = insert (key_of line) (fst ` set st)"
      by (simp only: keys_push_back_at_image)
    then show ?thesis unfolding one by simp
  next
    case False
    then have none: "{l \<in> {line}. CHR ''='' \<in> set l} = {}" by auto
    from process_line_cases[OF p] False have "st1 = st" by blast
    then show ?thesis unfolding none by simp
  qed
  with Cons.IH[OF r] show ?case
    unfolding split image_Un by (simp only: Un_assoc)
qed

lemma read_loop_sorted:
  "read_loop st lines = Inr st' \<Longrightarrow> sorted_wrt (<) (map fst st) \<Longrightarrow>
     sorted_wrt (<) (map fst st')"
proof (induction lines arbitrary: st)
  case Nil
  then show ?case by simp
next
  case (Cons line rest)
  from read_loop_Cons_Inr[OF Cons.prems(1)] obtain st1
    where p: "process_line st line = Inr st1" and r: "read_loop st1 rest = Inr st'" by blast
  from process_line_cases[OF p] Cons.prems(2) have "sorted_wrt (<) (map fst st1)"
    by (auto intro: sorted_push_back_at)
  with Cons.IH[OF r] show ?case .
qed

lemma read_loop_nonempty:
  "read_loop st lines = Inr st' \<Longrightarrow> \<forall>e \<in> set st. snd e \<noteq> [] \<Longrightarrow>
     \<forall>e \<in> set st'. snd e \<noteq> []"
proof (induction lines arbitrary: st)
  case Nil
  then show ?case by simp
next
  case (Cons line rest)
  from read_loop_Cons_Inr[OF Cons.prems(1)] obtain st1
    where p: "process_line st line = Inr st1" and r: "read_loop st1 rest = Inr st'" by blast
  from process_line_cases[OF p] Cons.prems(2) have "\<forall>e \<in> set st1. snd e \<noteq> []"
    using nonempty_push_back_at by blast
  with Cons.IH[OF r] show ?case .
qed

lemma read_loop_retained:
  "read_loop st lines = Inr st' \<Longrightarrow>
     retained st' = retained st + length (filter (\<lambda>l. CHR ''='' \<in> set l) lines)"
proof (induction lines arbitrary: st)
  case Nil
  then show ?case by simp
next
  case (Cons line rest)
  from read_loop_Cons_Inr[OF Cons.prems(1)] obtain st1
    where p: "process_line st line = Inr st1" and r: "read_loop st1 rest = Inr st'" by blast
  from process_line_cases[OF p] have
    "retained st1 = retained st + length (filter (\<lambda>l. CHR ''='' \<in> set l) [line])"
    by (auto simp: retained_push_back_at)
  with Cons.IH[OF r] show ?case by simp
qed

lemma read_loop_skip:
  assumes "CHR ''='' \<notin> set line"
  shows "read_loop st (before @ line # after) = read_loop st (before @ after)"
  by (simp add: read_loop_append process_line_skip[OF assms] split: sum.splits)

lemma read_loop_throws:
  assumes "CHR ''='' \<in> set line" "stod (value_of line) = Inl e" "line \<in> set lines"
  shows "\<exists>e'. read_loop st lines = Inl e'"
  using assms(3)
proof (induction lines arbitrary: st)
  case Nil
  then show ?case by simp
next
  case (Cons l rest)
  show ?case
  proof (cases "process_line st l")
    case (Inl a)
    then show ?thesis by simp
  next
    case (Inr st1)
    with assms(1,2) have "l \<noteq> line" by (auto simp: process_line_record)
    with Cons.prems have "line \<in> set rest" by simp
    from Cons.IH[OF this] Inr show ?thesis by simp
  qed
qed

lemma open_first_None: "open_first fs names = None \<longleftrightarrow> (\<forall>f \<in> set names. fs f = None)"
  by (induction names) (auto split: option.splits)

lemma open_first_cong:
  "\<forall>f \<in> set names. fs f = fs' f \<Longrightarrow> open_first fs names = open_first fs' names"
  by (induction names) (auto split: option.splits)

lemma open_first_single_file [simp]: "open_first (single_file content) input_files = Some content"
  by (simp add: single_file_def input_files_def)

lemma main_single_file:
  "main (single_file content) =
     (case read_loop [] (getlines content) of
        Inl e \<Rightarrow> Inl e
      | Inr st \<Rightarrow> Inr \<lparr>exit_code = 0, stdout = report st, stderr = []\<rparr>)"
  by (simp add: main_def)

section \<open>The properties of the specification\<close>

text \<open>
  Claim C1 as the specification states it, with \<open>;\<close> between key and value: the
  program looks for \<open>=\<close>, finds none in any of the three lines, skips them all and
  prints nothing.
\<close>

theorem scenario_A_semicolon_lines_give_no_output:
  "main (single_file ''A;10.0\<newline>B;20.0\<newline>A;5.0\<newline>'')
     = Inr \<lparr>exit_code = 0, stdout = [], stderr = []\<rparr>"
proof -
  have l: "getlines ''A;10.0\<newline>B;20.0\<newline>A;5.0\<newline>'' = [''A;10.0'', ''B;20.0'', ''A;5.0'']"
    by code_simp
  have r: "read_loop [] [''A;10.0'', ''B;20.0'', ''A;5.0''] = Inr []"
    by (simp add: process_line_def)
  show ?thesis
    by (simp add: main_single_file l r report_def del: read_loop.simps)
qed

text \<open>
  Claim C1 with the delimiter of the program: for the three lines \<open>A=10.0\<close>,
  \<open>B=20.0\<close>, \<open>A=5.0\<close> the program prints exactly \<open>A=5.0/7.5/10.0\<close> and then
  \<open>B=20.0/20.0/20.0\<close>, and returns 0.
\<close>

theorem scenario_A_equals_lines:
  "main (single_file ''A=10.0\<newline>B=20.0\<newline>A=5.0\<newline>'')
     = Inr \<lparr>exit_code = 0, stdout = ''A=5.0/7.5/10.0\<newline>B=20.0/20.0/20.0\<newline>'',
            stderr = []\<rparr>"
proof -
  have l: "getlines ''A=10.0\<newline>B=20.0\<newline>A=5.0\<newline>'' = [''A=10.0'', ''B=20.0'', ''A=5.0'']"
    by code_simp
  have r: "read_loop [] [''A=10.0'', ''B=20.0'', ''A=5.0'']
      = Inr [(''A'', [Finite False 10, Finite False 5]), (''B'', [Finite False 20])]"
    by (simp add: process_line_def stod_values)
  have o: "report [(''A'', [Finite False 10, Finite False 5]), (''B'', [Finite False 20])]
      = ''A=5.0/7.5/10.0\<newline>B=20.0/20.0/20.0\<newline>''"
    by (simp add: report_def report_line_def mean_values fmt_values signed_def
        del: fmt_fixed1.simps)
  show ?thesis
    by (simp add: main_single_file l r o del: read_loop.simps)
qed

text \<open>
  Claim C2 says that a line with a delimiter and a value that is no number is skipped
  and that the report is that of the other lines. In the program the exception of
  \<open>std::stod\<close> ends the run: with the line \<open>B=abc\<close> there is no report at all,
  without it the report has the lines of \<open>A\<close> and \<open>C\<close>.
\<close>

theorem unparseable_value_terminates:
  "main (single_file ''A=1.0\<newline>B=abc\<newline>C=2.0\<newline>'') = Inl Invalid_argument
   \<and> main (single_file ''A=1.0\<newline>C=2.0\<newline>'')
       = Inr \<lparr>exit_code = 0, stdout = ''A=1.0/1.0/1.0\<newline>C=2.0/2.0/2.0\<newline>'',
              stderr = []\<rparr>"
proof -
  have l1: "getlines ''A=1.0\<newline>B=abc\<newline>C=2.0\<newline>'' = [''A=1.0'', ''B=abc'', ''C=2.0'']"
    and l2: "getlines ''A=1.0\<newline>C=2.0\<newline>'' = [''A=1.0'', ''C=2.0'']"
    by code_simp+
  have r1: "read_loop [] [''A=1.0'', ''B=abc'', ''C=2.0''] = Inl Invalid_argument"
    by (simp add: process_line_def stod_values stod_abc)
  have r2: "read_loop [] [''A=1.0'', ''C=2.0'']
      = Inr [(''A'', [Finite False 1]), (''C'', [Finite False 2])]"
    by (simp add: process_line_def stod_values)
  have o: "report [(''A'', [Finite False 1]), (''C'', [Finite False 2])]
      = ''A=1.0/1.0/1.0\<newline>C=2.0/2.0/2.0\<newline>''"
    by (simp add: report_def report_line_def mean_values fmt_values del: fmt_fixed1.simps)
  show ?thesis
    by (simp add: main_single_file l1 l2 r1 r2 o del: read_loop.simps)
qed

text \<open>
  Claim C3 bounds the number of retained values by the number of distinct keys. Three
  records of one key leave three values in \<open>stations\<close>, under a single key.
\<close>

theorem every_value_is_retained_example:
  "read_loop [] (getlines ''A=1.0\<newline>A=2.0\<newline>A=1.0\<newline>'')
     = Inr [(''A'', [Finite False 1, Finite False 2, Finite False 1])]
   \<and> retained [(''A'', [Finite False 1, Finite False 2, Finite False 1])] = 3
   \<and> length [(''A'', [Finite False 1, Finite False 2, Finite False 1])] = 1"
proof -
  have l: "getlines ''A=1.0\<newline>A=2.0\<newline>A=1.0\<newline>'' = [''A=1.0'', ''A=2.0'', ''A=1.0'']"
    by code_simp
  have r: "read_loop [] [''A=1.0'', ''A=2.0'', ''A=1.0'']
      = Inr [(''A'', [Finite False 1, Finite False 2, Finite False 1])]"
    by (simp add: process_line_def stod_values)
  show ?thesis
    by (simp add: l r retained_def del: read_loop.simps)
qed

text \<open>
  Claim C3 as the program has it: when the loop has read the whole input, \<open>stations\<close>
  holds one value for every line that contains the delimiter, whatever the number of
  distinct keys.
\<close>

theorem every_value_is_retained:
  assumes "read_loop [] (getlines content) = Inr st"
  shows "retained st = length (filter (\<lambda>l. CHR ''='' \<in> set l) (getlines content))"
  using read_loop_retained[OF assms] by (simp add: retained_def)

theorem every_value_is_retained_witness:
  "read_loop [] (getlines ''A=1.0\<newline>x\<newline>A=2.0\<newline>'')
     = Inr [(''A'', [Finite False 1, Finite False 2])]
   \<and> retained [(''A'', [Finite False 1, Finite False 2])]
       = length (filter (\<lambda>l. CHR ''='' \<in> set l) (getlines ''A=1.0\<newline>x\<newline>A=2.0\<newline>''))"
proof -
  have l: "getlines ''A=1.0\<newline>x\<newline>A=2.0\<newline>'' = [''A=1.0'', ''x'', ''A=2.0'']"
    by code_simp
  have r: "read_loop [] [''A=1.0'', ''x'', ''A=2.0'']
      = Inr [(''A'', [Finite False 1, Finite False 2])]"
    by (simp add: process_line_def stod_values)
  have h: "read_loop [] (getlines ''A=1.0\<newline>x\<newline>A=2.0\<newline>'')
      = Inr [(''A'', [Finite False 1, Finite False 2])]"
    by (simp only: l r)
  from every_value_is_retained[OF h] h show ?thesis by simp
qed

text \<open>
  Claim C6: when none of the candidate files can be opened, the program returns 1, has
  written the diagnostic to standard error and nothing to standard output.
\<close>

theorem no_input_file:
  assumes "\<forall>f \<in> set input_files. fs f = None"
  shows "main fs = Inr \<lparr>exit_code = 1, stdout = [], stderr = ''Error: Could not open file\<newline>''\<rparr>"
proof -
  from assms have "open_first fs input_files = None" by (simp only: open_first_None)
  then show ?thesis by (simp add: main_def)
qed

theorem no_input_file_witness:
  "main Map.empty
     = Inr \<lparr>exit_code = 1, stdout = [], stderr = ''Error: Could not open file\<newline>''\<rparr>"
proof -
  have h: "\<forall>f \<in> set input_files. (Map.empty :: filesystem) f = None" by simp
  from no_input_file[OF h] show ?thesis .
qed

text \<open>
  Claim C7: a line without the delimiter leaves \<open>stations\<close> as it is, and the whole
  run, on any input that contains such a line, has the outcome of the run on the input
  without that line.
\<close>

theorem line_without_delimiter_skipped:
  assumes "open_first fs input_files = Some content"
    and "open_first fs' input_files = Some content'"
    and "getlines content = before @ line # after"
    and "getlines content' = before @ after"
    and "CHR ''='' \<notin> set line"
  shows "process_line st line = Inr st \<and> main fs = main fs'"
proof
  show "process_line st line = Inr st" using assms(5) by (rule process_line_skip)
  show "main fs = main fs'"
    by (simp add: main_def assms(1-4) read_loop_skip[OF assms(5)])
qed

theorem line_without_delimiter_skipped_witness:
  "getlines ''A=1.0\<newline>garbage\<newline>C=2.0\<newline>'' = [''A=1.0''] @ ''garbage'' # [''C=2.0'']
   \<and> getlines ''A=1.0\<newline>C=2.0\<newline>'' = [''A=1.0''] @ [''C=2.0'']
   \<and> CHR ''='' \<notin> set ''garbage''
   \<and> process_line [] ''garbage'' = Inr []
   \<and> main (single_file ''A=1.0\<newline>garbage\<newline>C=2.0\<newline>'')
       = main (single_file ''A=1.0\<newline>C=2.0\<newline>'')"
proof -
  have l1: "getlines ''A=1.0\<newline>garbage\<newline>C=2.0\<newline>'' = [''A=1.0''] @ ''garbage'' # [''C=2.0'']"
    and l2: "getlines ''A=1.0\<newline>C=2.0\<newline>'' = [''A=1.0''] @ [''C=2.0'']"
    by code_simp+
  have g: "CHR ''='' \<notin> set ''garbage''" by simp
  from line_without_delimiter_skipped
         [OF open_first_single_file open_first_single_file l1 l2 g, of "[]"] l1 l2 g
  show ?thesis by blast
qed

text \<open>
  Claim C9: the line \<open>A=1.5abc\<close> is accepted; \<open>std::stod\<close> converts the prefix
  \<open>1.5\<close> and ignores \<open>abc\<close>, and the report shows 1.5 for \<open>A\<close>.
\<close>

theorem numeric_prefix_accepted:
  "process_line [] ''A=1.5abc'' = Inr [(''A'', [Finite False (3 / 2)])]
   \<and> main (single_file ''A=1.5abc\<newline>'')
       = Inr \<lparr>exit_code = 0, stdout = ''A=1.5/1.5/1.5\<newline>'', stderr = []\<rparr>"
proof -
  have l: "getlines ''A=1.5abc\<newline>'' = [''A=1.5abc'']" by code_simp
  have p: "process_line [] ''A=1.5abc'' = Inr [(''A'', [Finite False (3 / 2)])]"
    by (simp add: process_line_def stod_values)
  have o: "report [(''A'', [Finite False (3 / 2)])] = ''A=1.5/1.5/1.5\<newline>''"
    by (simp add: report_def report_line_def mean_values fmt_values del: fmt_fixed1.simps)
  show ?thesis
    by (simp add: main_single_file l p o)
qed

text \<open>
  Claim C5 says that for every input the keys of the output are the keys of the valid
  records. With the lines \<open>A=1.0\<close> and \<open>B=abc\<close> the first is a valid record of
  key \<open>A\<close>, the second makes \<open>std::stod\<close> throw, and the run ends without
  any output.
\<close>

theorem valid_record_lost_when_later_value_unparseable:
  "process_line [] ''A=1.0'' = Inr [(''A'', [Finite False 1])]
   \<and> process_line [(''A'', [Finite False 1])] ''B=abc'' = Inl Invalid_argument
   \<and> main (single_file ''A=1.0\<newline>B=abc\<newline>'') = Inl Invalid_argument"
proof -
  have l: "getlines ''A=1.0\<newline>B=abc\<newline>'' = [''A=1.0'', ''B=abc'']" by code_simp
  have p1: "process_line [] ''A=1.0'' = Inr [(''A'', [Finite False 1])]"
    by (simp add: process_line_def stod_values)
  have p2: "process_line [(''A'', [Finite False 1])] ''B=abc'' = Inl Invalid_argument"
    by (simp add: process_line_def stod_abc)
  show ?thesis
    by (simp add: main_single_file l p1 p2)
qed

lemma sorted_wrt_less_distinct:
  "sorted_wrt (<) (xs :: string list) \<Longrightarrow> distinct xs \<and> sorted xs"
  by (simp add: strict_sorted_iff)

lemma report_keys:
  assumes "open_first fs input_files = Some content" and "main fs = Inr r"
  shows "\<exists>st. read_loop [] (getlines content) = Inr st \<and> stdout r = concat (map report_line st)
           \<and> sorted (map fst st) \<and> distinct (map fst st)
           \<and> set (map fst st) = key_of ` {l \<in> set (getlines content). CHR ''='' \<in> set l}
           \<and> (\<forall>l \<in> set (getlines content). CHR ''='' \<in> set l \<longrightarrow> (\<exists>x. stod (value_of l) = Inr x))"
proof -
  from assms obtain st where st: "read_loop [] (getlines content) = Inr st"
    and out: "stdout r = report st"
    by (auto simp: main_def split: sum.splits)
  have "sorted_wrt (<) (map fst st)" using read_loop_sorted[OF st] by simp
  then have "distinct (map fst st) \<and> sorted (map fst st)" by (rule sorted_wrt_less_distinct)
  moreover have "set (map fst st) = key_of ` {l \<in> set (getlines content). CHR ''='' \<in> set l}"
    using read_loop_keys[OF st] by simp
  moreover have "\<exists>x. stod (value_of l) = Inr x"
    if "l \<in> set (getlines content)" "CHR ''='' \<in> set l" for l
  proof (cases "stod (value_of l)")
    case (Inl e)
    from read_loop_throws[OF that(2) Inl that(1), of "[]"] st show ?thesis by simp
  next
    case (Inr x)
    then show ?thesis by blast
  qed
  ultimately show ?thesis using st out by (auto simp: report_def)
qed

lemma value_kept_push_back_at:
  "(k, temps) \<in> set st \<Longrightarrow> x \<in> set temps \<Longrightarrow>
     \<exists>temps'. (k, temps') \<in> set (push_back_at k2 v st) \<and> x \<in> set temps'"
proof (induction k2 v st rule: push_back_at.induct)
  case (1 station temp)
  then show ?case by simp
next
  case (2 station temp k' temps0 rest)
  show ?case
  proof (cases "(k, temps) = (k', temps0)")
    case True
    with "2.prems" show ?thesis by auto
  next
    case False
    with "2.prems" have in_rest: "(k, temps) \<in> set rest" by auto
    show ?thesis
    proof (cases "station = k'")
      case True
      with in_rest "2.prems" show ?thesis by auto
    next
      case ne: False
      show ?thesis
      proof (cases "station < k'")
        case True
        with ne in_rest "2.prems" show ?thesis by auto
      next
        case False
        from "2.IH"[OF ne False in_rest "2.prems"(2)] ne False show ?thesis by auto
      qed
    qed
  qed
qed

lemma read_loop_value_kept:
  "read_loop st lines = Inr st' \<Longrightarrow> (k, temps) \<in> set st \<Longrightarrow> x \<in> set temps \<Longrightarrow>
     \<exists>temps'. (k, temps') \<in> set st' \<and> x \<in> set temps'"
proof (induction lines arbitrary: st temps)
  case Nil
  then show ?case by auto
next
  case (Cons line rest)
  from read_loop_Cons_Inr[OF Cons.prems(1)] obtain st1
    where p: "process_line st line = Inr st1" and r: "read_loop st1 rest = Inr st'" by blast
  from process_line_cases[OF p] Cons.prems(2,3)
  obtain temps1 where "(k, temps1) \<in> set st1" "x \<in> set temps1"
    using value_kept_push_back_at by blast
  from Cons.IH[OF r this] show ?case .
qed

lemma read_loop_value_in:
  "read_loop st lines = Inr st' \<Longrightarrow> l \<in> set lines \<Longrightarrow> CHR ''='' \<in> set l \<Longrightarrow>
   stod (value_of l) = Inr x \<Longrightarrow> \<exists>temps. (key_of l, temps) \<in> set st' \<and> x \<in> set temps"
proof (induction lines arbitrary: st)
  case Nil
  then show ?case by simp
next
  case (Cons line rest)
  from read_loop_Cons_Inr[OF Cons.prems(1)] obtain st1
    where p: "process_line st line = Inr st1" and r: "read_loop st1 rest = Inr st'" by blast
  show ?case
  proof (cases "l = line")
    case True
    with process_line_cases[OF p] Cons.prems(3,4)
    have "st1 = push_back_at (key_of l) x st" by auto
    with value_in_push_back_at[of "key_of l" x st]
    obtain temps1 where "(key_of l, temps1) \<in> set st1" "x \<in> set temps1" by auto
    from read_loop_value_kept[OF r this] show ?thesis .
  next
    case False
    with Cons.prems(2) have "l \<in> set rest" by simp
    from Cons.IH[OF r this Cons.prems(3,4)] show ?thesis .
  qed
qed

lemma empty_key_is_head:
  assumes "sorted_wrt (<) (map fst st)" and "([], temps) \<in> set st"
  shows "\<exists>rest. st = ([], temps) # rest"
proof (cases st)
  case Nil
  with assms(2) show ?thesis by simp
next
  case (Cons e rest)
  have "([], temps) \<notin> set rest"
  proof
    assume "([], temps) \<in> set rest"
    then have "[] \<in> set (map fst rest)" by force
    with assms(1) Cons have "fst e < []" by auto
    then show False by simp
  qed
  with assms(2) Cons show ?thesis by simp
qed

lemma minmax_element_Some:
  "temps \<noteq> [] \<Longrightarrow> \<exists>mn mx. minmax_element temps = Some (mn, mx)"
  by (cases temps rule: minmax_element.cases) (auto intro: prod.exhaust)

text \<open>
  A line that is the delimiter followed by a number that \<open>std::stod\<close> accepts is a
  record of the empty key. In the report of a run that completes on an input with such
  a line, the first line is the one of the empty key (it starts with \<open>=\<close>), its
  values include that number, and every other key is greater.
\<close>

lemma empty_key_is_first_entry:
  assumes "open_first fs input_files = Some content"
    and "CHR ''='' # v \<in> set (getlines content)"
    and "stod v = Inr x"
    and "main fs = Inr r"
  shows "process_line st (CHR ''='' # v) = Inr (push_back_at [] x st)
     \<and> (\<exists>temps rest mn mx.
          read_loop [] (getlines content) = Inr (([], temps) # rest)
          \<and> x \<in> set temps
          \<and> minmax_element temps = Some (mn, mx)
          \<and> stdout r = (''='' @ fmt_fixed1 mn @ ''/'' @ fmt_fixed1 (mean_of temps) @ ''/''
                          @ fmt_fixed1 mx @ ''\<newline>'') @ report rest
          \<and> (\<forall>k \<in> set (map fst rest). [] < k))"
proof
  have kv: "key_of (CHR ''='' # v) = []" "value_of (CHR ''='' # v) = v"
    by (simp_all add: key_of_def value_of_def)
  have d: "CHR ''='' \<in> set (CHR ''='' # v)" by simp
  show "process_line st (CHR ''='' # v) = Inr (push_back_at [] x st)"
    by (simp only: process_line_record[OF d] kv assms(3) sum.case)
  from assms(1,4) obtain st0 where st0: "read_loop [] (getlines content) = Inr st0"
    and out: "stdout r = report st0"
    by (auto simp: main_def split: sum.splits)
  have srt: "sorted_wrt (<) (map fst st0)" using read_loop_sorted[OF st0] by simp
  from read_loop_value_in[OF st0 assms(2) d] assms(3) kv
  obtain temps where t: "([], temps) \<in> set st0" "x \<in> set temps" by auto
  from empty_key_is_head[OF srt t(1)] obtain rest where rest: "st0 = ([], temps) # rest" by blast
  from t(2) have "temps \<noteq> []" by auto
  from minmax_element_Some[OF this] obtain mn mx where mm: "minmax_element temps = Some (mn, mx)"
    by blast
  have "stdout r = (''='' @ fmt_fixed1 mn @ ''/'' @ fmt_fixed1 (mean_of temps) @ ''/''
                          @ fmt_fixed1 mx @ ''\<newline>'') @ report rest"
    by (simp add: out rest report_def report_line_def mm)
  moreover have "\<forall>k \<in> set (map fst rest). [] < k" using srt rest by simp
  ultimately show "\<exists>temps rest mn mx.
          read_loop [] (getlines content) = Inr (([], temps) # rest)
          \<and> x \<in> set temps
          \<and> minmax_element temps = Some (mn, mx)
          \<and> stdout r = (''='' @ fmt_fixed1 mn @ ''/'' @ fmt_fixed1 (mean_of temps) @ ''/''
                          @ fmt_fixed1 mx @ ''\<newline>'') @ report rest
          \<and> (\<forall>k \<in> set (map fst rest). [] < k)"
    using st0 rest t(2) mm by blast
qed

section \<open>Minimum, maximum and mean of a key\<close>

subsection \<open>\<open>std::minmax_element\<close> on values without NaN\<close>

lemma dle_refl: "\<not> is_nan x \<Longrightarrow> dle x x"
  by (cases x) (auto simp: dle_def)

lemma dle_trans: "dle x y \<Longrightarrow> dle y z \<Longrightarrow> dle x z"
  by (cases x; cases y; cases z) (auto simp: dle_def)

lemma dless_dle: "dless x y \<Longrightarrow> dle x y"
  by (cases x; cases y) (auto simp: dle_def)

lemma not_dless_dle: "\<not> is_nan x \<Longrightarrow> \<not> is_nan y \<Longrightarrow> \<not> dless x y \<Longrightarrow> dle y x"
  by (simp add: dle_def)

lemma dle_not_nan: "dle x y \<Longrightarrow> \<not> is_nan x \<and> \<not> is_nan y"
  by (simp add: dle_def)

lemma dle_finite: "dle (Finite s a) (Finite t b) \<longleftrightarrow> signed s a \<le> signed t b"
  by (auto simp: dle_def)

lemma minmax_loop_mem:
  "minmax_loop mn mx xs = (mn', mx') \<Longrightarrow> mn' \<in> insert mn (set xs) \<and> mx' \<in> insert mx (set xs)"
proof (induction mn mx xs arbitrary: mn' mx' rule: minmax_loop.induct)
  case (1 mn mx)
  then show ?case by simp
next
  case (2 mn mx x)
  then show ?case by (auto split: if_splits)
next
  case (3 mn mx x y rest)
  show ?case
  proof (cases "dless y x")
    case True
    with "3.prems" have "minmax_loop (if dless y mn then y else mn)
        (if \<not> dless x mx then x else mx) rest = (mn', mx')" by simp
    from "3.IH"(1)[OF True this] show ?thesis by (auto split: if_splits)
  next
    case False
    with "3.prems" have "minmax_loop (if dless x mn then x else mn)
        (if \<not> dless y mx then y else mx) rest = (mn', mx')" by simp
    from "3.IH"(2)[OF False this] show ?thesis by (auto split: if_splits)
  qed
qed

lemma minmax_pair_step:
  assumes "\<not> is_nan x" "\<not> is_nan y" "dle mn mx" "dless y x"
  defines "mn1 \<equiv> if dless y mn then y else mn"
    and "mx1 \<equiv> if \<not> dless x mx then x else mx"
  shows "dle mn1 mx1" "dle mn1 mn" "dle mn1 y" "dle mn1 x" "dle mx mx1" "dle x mx1" "dle y mx1"
proof -
  have n: "\<not> is_nan mn" "\<not> is_nan mx" using assms(3) by (auto dest: dle_not_nan)
  have yx: "dle y x" using assms(4) by (rule dless_dle)
  show a: "dle mn1 mn" unfolding mn1_def using n by (auto intro: dless_dle dle_refl)
  show b: "dle mn1 y" unfolding mn1_def using n assms(1,2) by (auto intro: not_dless_dle dle_refl)
  show c: "dle mn1 x" using b yx by (rule dle_trans)
  show d: "dle mx mx1" unfolding mx1_def using n assms(1,2) by (auto intro: not_dless_dle dle_refl)
  show e: "dle x mx1" unfolding mx1_def using n assms(1,2) by (auto intro: dless_dle dle_refl)
  show f: "dle y mx1" using yx e by (rule dle_trans)
  show "dle mn1 mx1" using b f by (rule dle_trans)
qed

lemma minmax_pair_step':
  assumes "\<not> is_nan x" "\<not> is_nan y" "dle mn mx" "\<not> dless y x"
  defines "mn1 \<equiv> if dless x mn then x else mn"
    and "mx1 \<equiv> if \<not> dless y mx then y else mx"
  shows "dle mn1 mx1" "dle mn1 mn" "dle mn1 y" "dle mn1 x" "dle mx mx1" "dle x mx1" "dle y mx1"
proof -
  have n: "\<not> is_nan mn" "\<not> is_nan mx" using assms(3) by (auto dest: dle_not_nan)
  have xy: "dle x y" using assms(1,2,4) by (auto intro: not_dless_dle)
  show a: "dle mn1 mn" unfolding mn1_def using n by (auto intro: dless_dle dle_refl)
  show b: "dle mn1 x" unfolding mn1_def using n assms(1,2) by (auto intro: not_dless_dle dle_refl)
  show c: "dle mn1 y" using b xy by (rule dle_trans)
  show d: "dle mx mx1" unfolding mx1_def using n assms(1,2) by (auto intro: not_dless_dle dle_refl)
  show e: "dle y mx1" unfolding mx1_def using n assms(1,2) by (auto intro: dless_dle dle_refl)
  show f: "dle x mx1" using xy e by (rule dle_trans)
  show "dle mn1 mx1" using b f by (rule dle_trans)
qed

lemma minmax_loop_bounds:
  assumes "\<forall>x \<in> set xs. \<not> is_nan x" "dle mn mx"
    and "minmax_loop mn mx xs = (mn', mx')"
  shows "dle mn' mn \<and> dle mx mx' \<and> (\<forall>x \<in> set xs. dle mn' x \<and> dle x mx')"
  using assms
proof (induction mn mx xs arbitrary: mn' mx' rule: minmax_loop.induct)
  case (1 mn mx)
  then show ?case by (auto simp: dle_refl dest: dle_not_nan)
next
  case (2 mn mx x)
  then have nx: "\<not> is_nan x" "\<not> is_nan mn" "\<not> is_nan mx" by (auto dest: dle_not_nan)
  show ?case
  proof (cases "dless x mn")
    case True
    with "2.prems" have eq: "mn' = x" "mx' = mx" by simp_all
    have "dle x mn" using True by (rule dless_dle)
    moreover from this "2.prems"(2) have "dle x mx" by (rule dle_trans)
    ultimately show ?thesis using nx by (simp add: eq dle_refl)
  next
    case lo: False
    then have xm: "dle mn x" using nx by (auto intro: not_dless_dle)
    show ?thesis
    proof (cases "dless x mx")
      case True
      with lo "2.prems" have eq: "mn' = mn" "mx' = mx" by simp_all
      from True have "dle x mx" by (rule dless_dle)
      with xm show ?thesis using nx by (simp add: eq dle_refl)
    next
      case False
      with lo "2.prems" have eq: "mn' = mn" "mx' = x" by simp_all
      from False have "dle mx x" using nx by (auto intro: not_dless_dle)
      with xm show ?thesis using nx by (simp add: eq dle_refl)
    qed
  qed
next
  case (3 mn mx x y rest)
  then have nx: "\<not> is_nan x" "\<not> is_nan y" by auto
  have r: "\<forall>x \<in> set rest. \<not> is_nan x" using "3.prems"(1) by simp
  show ?case
  proof (cases "dless y x")
    case True
    let ?mn = "if dless y mn then y else mn" and ?mx = "if \<not> dless x mx then x else mx"
    from True "3.prems" have eq: "minmax_loop ?mn ?mx rest = (mn', mx')" by simp
    note st = minmax_pair_step[OF nx "3.prems"(2) True]
    from "3.IH"(1)[OF True r st(1) eq]
    have ih: "dle mn' ?mn" "dle ?mx mx'" "\<forall>x \<in> set rest. dle mn' x \<and> dle x mx'" by auto
    have "dle mn' mn" using ih(1) st(2) by (rule dle_trans)
    moreover have "dle mn' y" using ih(1) st(3) by (rule dle_trans)
    moreover have "dle mn' x" using ih(1) st(4) by (rule dle_trans)
    moreover have "dle mx mx'" using st(5) ih(2) by (rule dle_trans)
    moreover have "dle x mx'" using st(6) ih(2) by (rule dle_trans)
    moreover have "dle y mx'" using st(7) ih(2) by (rule dle_trans)
    ultimately show ?thesis using ih(3) by simp
  next
    case False
    let ?mn = "if dless x mn then x else mn" and ?mx = "if \<not> dless y mx then y else mx"
    from False "3.prems" have eq: "minmax_loop ?mn ?mx rest = (mn', mx')" by simp
    note st = minmax_pair_step'[OF nx "3.prems"(2) False]
    from "3.IH"(2)[OF False r st(1) eq]
    have ih: "dle mn' ?mn" "dle ?mx mx'" "\<forall>x \<in> set rest. dle mn' x \<and> dle x mx'" by auto
    have "dle mn' mn" using ih(1) st(2) by (rule dle_trans)
    moreover have "dle mn' y" using ih(1) st(3) by (rule dle_trans)
    moreover have "dle mn' x" using ih(1) st(4) by (rule dle_trans)
    moreover have "dle mx mx'" using st(5) ih(2) by (rule dle_trans)
    moreover have "dle x mx'" using st(6) ih(2) by (rule dle_trans)
    moreover have "dle y mx'" using st(7) ih(2) by (rule dle_trans)
    ultimately show ?thesis using ih(3) by simp
  qed
qed

lemma minmax_element_mem:
  "minmax_element temps = Some (mn, mx) \<Longrightarrow> mn \<in> set temps \<and> mx \<in> set temps"
proof (cases temps rule: minmax_element.cases)
  case 1
  assume "minmax_element temps = Some (mn, mx)"
  with 1 show ?thesis by simp
next
  case (2 x)
  assume "minmax_element temps = Some (mn, mx)"
  with 2 show ?thesis by auto
next
  case (3 x y rest)
  assume a: "minmax_element temps = Some (mn, mx)"
  show ?thesis
  proof (cases "dless y x")
    case True
    with a 3 have "minmax_loop y x rest = (mn, mx)" by simp
    from minmax_loop_mem[OF this] 3 show ?thesis by auto
  next
    case False
    with a 3 have "minmax_loop x y rest = (mn, mx)" by simp
    from minmax_loop_mem[OF this] 3 show ?thesis by auto
  qed
qed

lemma minmax_element_bounds:
  assumes "minmax_element temps = Some (mn, mx)" "\<forall>x \<in> set temps. \<not> is_nan x"
  shows "\<forall>x \<in> set temps. dle mn x \<and> dle x mx"
proof (cases temps rule: minmax_element.cases)
  case 1
  with assms show ?thesis by simp
next
  case (2 x)
  with assms show ?thesis by (auto simp: dle_refl)
next
  case (3 x y rest)
  with assms(2) have nx: "\<not> is_nan x" "\<not> is_nan y" and r: "\<forall>x \<in> set rest. \<not> is_nan x"
    by auto
  show ?thesis
  proof (cases "dless y x")
    case True
    with assms(1) 3 have eq: "minmax_loop y x rest = (mn, mx)" by simp
    have yx: "dle y x" using True by (rule dless_dle)
    from minmax_loop_bounds[OF r yx eq]
    have b: "dle mn y" "dle x mx" "\<forall>x \<in> set rest. dle mn x \<and> dle x mx" by auto
    have "dle mn x" using b(1) yx by (rule dle_trans)
    moreover have "dle y mx" using yx b(2) by (rule dle_trans)
    ultimately show ?thesis using b 3 by simp
  next
    case False
    with assms(1) 3 have eq: "minmax_loop x y rest = (mn, mx)" by simp
    have xy: "dle x y" using False nx by (auto intro: not_dless_dle)
    from minmax_loop_bounds[OF r xy eq]
    have b: "dle mn x" "dle y mx" "\<forall>x \<in> set rest. dle mn x \<and> dle x mx" by auto
    have "dle mn y" using b(1) xy by (rule dle_trans)
    moreover have "dle x mx" using xy b(2) by (rule dle_trans)
    ultimately show ?thesis using b 3 by simp
  qed
qed

subsection \<open>Rounding errors\<close>

lemma round_even_error: "\<bar>of_int (round_even x) - x\<bar> \<le> 1 / 2"
proof -
  have "of_int \<lfloor>x\<rfloor> \<le> x" "x < of_int \<lfloor>x\<rfloor> + 1" by linarith+
  then show ?thesis unfolding round_even_def Let_def by (auto simp: abs_le_iff)
qed

lemma round_even_nonneg: "0 \<le> x \<Longrightarrow> 0 \<le> round_even x"
  unfolding round_even_def Let_def by (auto simp: zero_le_floor) 

lemma round_to_error: "\<bar>round_to e q - q\<bar> \<le> 2 powi e / 2"
proof -
  let ?p = "(2::rat) powi e"
  have p: "0 < ?p" by simp
  have "round_to e q - q = (of_int (round_even (q / ?p)) - q / ?p) * ?p"
    using p by (simp add: round_to_def algebra_simps)
  then have "\<bar>round_to e q - q\<bar> = \<bar>of_int (round_even (q / ?p)) - q / ?p\<bar> * ?p"
    using p by (simp add: abs_mult)
  also have "\<dots> \<le> 1 / 2 * ?p"
    using round_even_error[of "q / ?p"] p by (intro mult_right_mono) auto
  finally show ?thesis by simp
qed

lemma round_to_nonneg: "0 \<le> q \<Longrightarrow> 0 \<le> round_to e q"
  unfolding round_to_def by (intro mult_nonneg_nonneg) (auto intro!: round_even_nonneg)

lemma tiny_half_ulp: "(2::rat) powi (- 1074) / 2 = unit_roundoff * min_normal"
proof -
  have "(2::rat) ^ 53 * 2 ^ 1022 = 2 ^ 1075" by (simp only: power_add[symmetric]) simp
  moreover have "(2::rat) powi (- 1074) / 2 = 1 / 2 ^ 1075"
    by (simp add: power_int_minus_divide)
  ultimately show ?thesis by (simp add: unit_roundoff_def min_normal_def)
qed

lemma round_double_error:
  assumes "0 \<le> q" "round_double s q = Finite s' r"
  shows "s' = s \<and> 0 \<le> r \<and> \<bar>r - q\<bar> \<le> unit_roundoff * q + unit_roundoff * min_normal"
proof (cases "q = 0")
  case True
  with assms show ?thesis by (simp add: round_double_def unit_roundoff_def min_normal_def)
next
  case False
  with assms(1) have q: "0 < q" by simp
  let ?k = "floor_log2 q"
  let ?e = "max (?k - 52) (- 1074)"
  from assms(2) False have r: "r = round_to ?e q" and s: "s' = s"
    by (auto simp: round_double_def Let_def split: if_splits)
  have "(2::rat) powi (?k - 52) = 2 powi ?k / 2 ^ 52"
    by (simp add: power_int_diff)
  also have "\<dots> \<le> q / 2 ^ 52" using floor_log2_bounds(1)[OF q] by (simp add: divide_right_mono)
  finally have a: "(2::rat) powi (?k - 52) / 2 \<le> unit_roundoff * q"
    by (simp add: unit_roundoff_def)
  have "(2::rat) powi ?e / 2 \<le> 2 powi (?k - 52) / 2 + 2 powi (- 1074) / 2"
    by (cases "?k - 52 \<le> - 1074") (simp_all add: max_def)
  with a have "(2::rat) powi ?e / 2 \<le> unit_roundoff * q + unit_roundoff * min_normal"
    unfolding tiny_half_ulp by linarith
  with round_to_error[of ?e q] have "\<bar>r - q\<bar> \<le> unit_roundoff * q + unit_roundoff * min_normal"
    unfolding r by linarith
  moreover have "0 \<le> r" unfolding r using assms(1) by (rule round_to_nonneg)
  ultimately show ?thesis using s by simp
qed

lemma signed_abs: "signed (x < 0) \<bar>x\<bar> = x"
  by (simp add: signed_def)

lemma signed_diff: "\<bar>signed s a - signed s b\<bar> = \<bar>a - b\<bar>"
  by (auto simp: signed_def)

lemma dadd_error:
  assumes "is_finite (dadd x y)"
  shows "is_finite x \<and> is_finite y
     \<and> \<bar>dval (dadd x y) - (dval x + dval y)\<bar>
         \<le> unit_roundoff * \<bar>dval x + dval y\<bar> + unit_roundoff * min_normal"
proof (cases x)
  case (Finite s a)
  note x = this
  show ?thesis
  proof (cases y)
    case (Finite t b)
    let ?p = "signed s a + signed t b"
    have um: "0 \<le> unit_roundoff * min_normal" by (simp add: unit_roundoff_def min_normal_def)
    show ?thesis
    proof (cases "?p = 0")
      case True
      then show ?thesis using x Finite um by (simp add: signed_def)
    next
      case False
      with assms x Finite obtain s' r where z: "round_double (?p < 0) \<bar>?p\<bar> = Finite s' r"
        by (cases "round_double (?p < 0) \<bar>?p\<bar>") (auto simp: Let_def)
      from round_double_error[OF _ z] have e: "s' = (?p < 0)"
        "\<bar>r - \<bar>?p\<bar>\<bar> \<le> unit_roundoff * \<bar>?p\<bar> + unit_roundoff * min_normal" by auto
      have "dval (dadd x y) = signed (?p < 0) r" using x Finite False z e(1) by (simp add: Let_def)
      then have "\<bar>dval (dadd x y) - ?p\<bar> = \<bar>r - \<bar>?p\<bar>\<bar>"
        using signed_diff[of "?p < 0" r "\<bar>?p\<bar>"] by (simp only: signed_abs)
      with e(2) show ?thesis using x Finite by simp
    qed
  next
    case (Infinity t)
    with assms x show ?thesis by simp
  next
    case (NaN t)
    with assms x show ?thesis by simp
  qed
next
  case (Infinity s)
  with assms show ?thesis by (cases y) (auto split: if_splits)
next
  case (NaN s)
  with assms show ?thesis by simp
qed

lemma dadd_mag_nonneg: "dadd x y = Finite s r \<Longrightarrow> 0 \<le> r"
proof (cases x; cases y)
  fix s1 a t1 b
  assume "dadd x y = Finite s r" "x = Finite s1 a" "y = Finite t1 b"
  then show "0 \<le> r"
    using round_double_error[of "\<bar>signed s1 a + signed t1 b\<bar>" "signed s1 a + signed t1 b < 0" s r]
    by (auto simp: Let_def split: if_splits)
qed (auto split: if_splits)

lemma unit_roundoff_pos: "0 < unit_roundoff"
  by (simp add: unit_roundoff_def)

lemma min_normal_pos: "0 < min_normal"
  by (simp add: min_normal_def)

lemma error_step:
  fixes u g m P Q p a' z S :: rat
  assumes u: "0 \<le> u" and g: "1 \<le> g" and m: "0 \<le> m" and Q: "0 \<le> Q"
    and p: "\<bar>p\<bar> \<le> P"
    and a: "\<bar>a' - p\<bar> \<le> u * \<bar>p\<bar> + u * m"
    and z: "\<bar>z - (a' + S)\<bar> \<le> (g - 1) * (\<bar>a'\<bar> + Q + m)"
  shows "\<bar>z - (p + S)\<bar> \<le> (g * (1 + u) - 1) * (P + Q + m)"
proof -
  have up: "u * \<bar>p\<bar> \<le> u * P" using u p by (rule mult_left_mono[rotated])
  have "(1 + u) * P = P + u * P" by (simp add: algebra_simps)
  with a p up have a1: "\<bar>a'\<bar> \<le> (1 + u) * P + u * m" by linarith
  have "(g - 1) * (\<bar>a'\<bar> + Q + m) \<le> (g - 1) * ((1 + u) * P + u * m + Q + m)"
    using g a1 by (intro mult_left_mono) auto
  with z a up have "\<bar>z - (p + S)\<bar> \<le> (g - 1) * ((1 + u) * P + u * m + Q + m) + u * P + u * m"
    by linarith
  moreover have "(g * (1 + u) - 1) * (P + Q + m)
      - ((g - 1) * ((1 + u) * P + u * m + Q + m) + u * P + u * m) = g * u * Q"
    by (simp add: algebra_simps)
  moreover have "0 \<le> g * u * Q" using u g Q by simp
  ultimately show ?thesis by linarith
qed

lemma foldl_dadd_error:
  assumes "is_finite (foldl dadd acc xs)"
  shows "is_finite acc \<and> (\<forall>x \<in> set xs. is_finite x)
     \<and> \<bar>dval (foldl dadd acc xs) - (dval acc + sum_list (map dval xs))\<bar>
         \<le> ((1 + unit_roundoff) ^ length xs - 1)
             * (\<bar>dval acc\<bar> + sum_list (map (\<lambda>x. \<bar>dval x\<bar>) xs) + min_normal)"
  using assms
proof (induction xs arbitrary: acc)
  case Nil
  then show ?case by simp
next
  case (Cons x xs)
  let ?u = unit_roundoff and ?m = min_normal
  let ?a' = "dadd acc x"
  from Cons.prems have fin: "is_finite (foldl dadd ?a' xs)" by simp
  from Cons.IH[OF fin] have ih: "is_finite ?a'" "\<forall>x \<in> set xs. is_finite x"
    "\<bar>dval (foldl dadd ?a' xs) - (dval ?a' + sum_list (map dval xs))\<bar>
       \<le> ((1 + ?u) ^ length xs - 1)
           * (\<bar>dval ?a'\<bar> + sum_list (map (\<lambda>x. \<bar>dval x\<bar>) xs) + ?m)"
    by auto
  from dadd_error[OF ih(1)] have d: "is_finite acc" "is_finite x"
    "\<bar>dval ?a' - (dval acc + dval x)\<bar> \<le> ?u * \<bar>dval acc + dval x\<bar> + ?u * ?m" by auto
  have g: "1 \<le> (1 + ?u) ^ length xs" using unit_roundoff_pos by (simp add: one_le_power)
  have Q: "0 \<le> sum_list (map (\<lambda>x. \<bar>dval x\<bar>) xs)" by (rule sum_list_nonneg) auto
  have p: "\<bar>dval acc + dval x\<bar> \<le> \<bar>dval acc\<bar> + \<bar>dval x\<bar>" by simp
  from error_step[OF less_imp_le[OF unit_roundoff_pos] g less_imp_le[OF min_normal_pos] Q p d(3) ih(3)]
  have "\<bar>dval (foldl dadd ?a' xs) - (dval acc + dval x + sum_list (map dval xs))\<bar>
      \<le> ((1 + ?u) ^ length xs * (1 + ?u) - 1)
          * (\<bar>dval acc\<bar> + \<bar>dval x\<bar> + sum_list (map (\<lambda>x. \<bar>dval x\<bar>) xs) + ?m)" .
  then show ?case using d ih(2) by (simp add: algebra_simps)
qed

lemma foldl_dadd_mag_nonneg:
  assumes "foldl dadd (Finite False 0) xs = Finite s r"
  shows "0 \<le> r"
proof (cases xs rule: rev_cases)
  case Nil
  with assms show ?thesis by simp
next
  case (snoc ys y)
  with assms have "dadd (foldl dadd (Finite False 0) ys) y = Finite s r" by simp
  then show ?thesis by (rule dadd_mag_nonneg)
qed

lemma double_of_size_exact:
  assumes "0 < n" "n < 2 ^ 53"
  shows "double_of_size n = Finite False (of_nat n)"
proof -
  let ?q = "of_nat n :: rat"
  let ?k = "floor_log2 ?q"
  have q: "0 < ?q" "1 \<le> ?q" using assms(1) by simp_all
  note b = floor_log2_bounds[OF q(1)]
  have k0: "0 \<le> ?k"
  proof (rule ccontr)
    assume "\<not> 0 \<le> ?k"
    then have "?k + 1 \<le> 0" by simp
    then have "(2::rat) powi (?k + 1) \<le> 2 powi 0" by (intro power_int_increasing) auto
    with b(2) q(2) show False by simp
  qed
  have lt: "?q < 2 ^ 53" using assms(2) by (metis of_nat_less_iff of_nat_numeral of_nat_power)
  have k52: "?k \<le> 52"
  proof (rule ccontr)
    assume "\<not> ?k \<le> 52"
    then have "53 \<le> ?k" by simp
    then have "(2::rat) powi 53 \<le> 2 powi ?k" by (intro power_int_increasing) auto
    with b(1) lt show False by simp
  qed
  have "?q / 2 powi (?k - 52) = ?q * 2 ^ nat (52 - ?k)"
    using k52 by (simp add: power_int_def field_simps power_inverse)
  also have "\<dots> = of_int (int n * 2 ^ nat (52 - ?k))" by simp
  finally have i: "?q / 2 powi (?k - 52) \<in> \<int>" by (simp only: Ints_of_int)
  from round_double_exact(1)[OF b _ _ i] k0 k52 show ?thesis
    by (simp add: double_of_size_def)
qed

lemma ddiv_error:
  assumes "0 \<le> a" "0 < b" "is_finite (ddiv (Finite s a) (Finite False b))"
  shows "\<bar>dval (ddiv (Finite s a) (Finite False b)) - signed s a / b\<bar>
      \<le> unit_roundoff * \<bar>signed s a / b\<bar> + unit_roundoff * min_normal"
proof -
  from assms obtain s' r where z: "round_double s (a / b) = Finite s' r"
    by (cases "round_double s (a / b)") auto
  have q: "0 \<le> a / b" using assms(1,2) by simp
  from round_double_error[OF q z] have e: "s' = s"
    "\<bar>r - a / b\<bar> \<le> unit_roundoff * (a / b) + unit_roundoff * min_normal" by auto
  have sd: "signed s a / b = signed s (a / b)" by (simp add: signed_def)
  have "dval (ddiv (Finite s a) (Finite False b)) = signed s r" using assms(2) z e(1) by simp
  then have "\<bar>dval (ddiv (Finite s a) (Finite False b)) - signed s a / b\<bar> = \<bar>r - a / b\<bar>"
    by (simp only: sd signed_diff)
  moreover have "\<bar>signed s a / b\<bar> = a / b" using assms(1,2) by (auto simp: signed_def)
  ultimately show ?thesis using e(2) by simp
qed

lemma sum_list_between:
  fixes f :: "'a \<Rightarrow> rat"
  assumes "\<forall>x \<in> set xs. lo \<le> f x \<and> f x \<le> hi"
  shows "of_nat (length xs) * lo \<le> sum_list (map f xs)
     \<and> sum_list (map f xs) \<le> of_nat (length xs) * hi"
  using assms by (induction xs) (auto simp: algebra_simps)

lemma ddiv_finite_left: "is_finite (ddiv x (Finite t b)) \<Longrightarrow> is_finite x"
  by (cases x) auto

lemma mean_error:
  assumes fin: "is_finite (mean_of temps)" and ne: "temps \<noteq> []"
    and len: "length temps < 2 ^ 53"
  shows "(\<forall>x \<in> set temps. is_finite x)
     \<and> \<bar>dval (mean_of temps) - sum_list (map dval temps) / of_nat (length temps)\<bar>
         \<le> ((1 + unit_roundoff) ^ (length temps + 1) - 1)
             * ((sum_list (map (\<lambda>x. \<bar>dval x\<bar>) temps) + min_normal) / of_nat (length temps))
           + unit_roundoff * min_normal"
proof -
  let ?u = unit_roundoff and ?m = min_normal
  let ?n = "of_nat (length temps) :: rat"
  let ?S = "sum_list (map dval temps)" and ?A = "sum_list (map (\<lambda>x. \<bar>dval x\<bar>) temps)"
  let ?g = "(1 + ?u) ^ length temps"
  have n: "0 < ?n" using ne by simp
  have u: "0 \<le> ?u" and m: "0 \<le> ?m" using unit_roundoff_pos min_normal_pos by simp_all
  have g: "1 \<le> ?g" using u by (simp add: one_le_power)
  have A: "0 \<le> ?A" by (rule sum_list_nonneg) auto
  have SA: "\<bar>?S\<bar> \<le> ?A" using sum_list_abs[of "map dval temps"] by (simp add: comp_def)
  have dsz: "double_of_size (length temps) = Finite False ?n"
    using ne len by (intro double_of_size_exact) auto
  have mean: "mean_of temps = ddiv (accumulate temps) (Finite False ?n)"
    by (simp add: mean_of_def dsz)
  with fin have "is_finite (accumulate temps)" by (auto dest: ddiv_finite_left)
  then obtain s a where acc: "accumulate temps = Finite s a" by (cases "accumulate temps") auto
  have a: "0 \<le> a" using acc unfolding accumulate_def by (rule foldl_dadd_mag_nonneg)
  have facc: "is_finite (foldl dadd (Finite False 0) temps)"
    using acc by (simp add: accumulate_def)
  from foldl_dadd_error[OF facc] acc
  have allfin: "\<forall>x \<in> set temps. is_finite x"
    and e1: "\<bar>signed s a - ?S\<bar> \<le> (?g - 1) * (?A + ?m)"
    by (auto simp: accumulate_def signed_def)
  let ?E = "(?g - 1) * (?A + ?m)"
  have E: "0 \<le> ?E" using g A m by simp
  from fin have "is_finite (ddiv (Finite s a) (Finite False ?n))" by (simp add: mean acc)
  from ddiv_error[OF a n this]
  have e2: "\<bar>dval (mean_of temps) - signed s a / ?n\<bar> \<le> ?u * \<bar>signed s a / ?n\<bar> + ?u * ?m"
    by (simp add: mean acc)
  have sd: "\<bar>signed s a\<bar> \<le> ?A + ?E" using e1 SA by linarith
  also have "\<dots> \<le> ?g * (?A + ?m)" using m by (simp add: algebra_simps)
  finally have "?u * \<bar>signed s a\<bar> \<le> ?u * (?g * (?A + ?m))" using u by (rule mult_left_mono)
  with e1 have "?u * \<bar>signed s a\<bar> + \<bar>signed s a - ?S\<bar> \<le> ?u * (?g * (?A + ?m)) + ?E"
    by linarith
  also have "\<dots> = (?g * (1 + ?u) - 1) * (?A + ?m)" by (simp add: algebra_simps)
  finally have num: "(?u * \<bar>signed s a\<bar> + \<bar>signed s a - ?S\<bar>) / ?n
      \<le> (?g * (1 + ?u) - 1) * (?A + ?m) / ?n"
    using n by (simp add: divide_right_mono)
  have "\<bar>dval (mean_of temps) - ?S / ?n\<bar>
      \<le> \<bar>dval (mean_of temps) - signed s a / ?n\<bar> + \<bar>signed s a / ?n - ?S / ?n\<bar>"
    by linarith
  also have "\<bar>signed s a / ?n - ?S / ?n\<bar> = \<bar>signed s a - ?S\<bar> / ?n"
    using n by (simp add: diff_divide_distrib[symmetric])
  also have "\<bar>dval (mean_of temps) - signed s a / ?n\<bar> + \<bar>signed s a - ?S\<bar> / ?n
      \<le> (?u * \<bar>signed s a\<bar> + \<bar>signed s a - ?S\<bar>) / ?n + ?u * ?m"
    using e2 n by (simp add: add_divide_distrib)
  also have "\<dots> \<le> (?g * (1 + ?u) - 1) * (?A + ?m) / ?n + ?u * ?m" using num by simp
  finally show ?thesis using allfin by (simp add: mult.commute)
qed

lemma mean_within_tolerance:
  assumes fin: "is_finite (mean_of temps)" and ne: "temps \<noteq> []"
    and len: "length temps < 2 ^ 53"
    and mm: "minmax_element temps = Some (mn, mx)"
  shows "dval mn - mean_tolerance (length temps) (max \<bar>dval mn\<bar> \<bar>dval mx\<bar>) \<le> dval (mean_of temps)
     \<and> dval (mean_of temps) \<le> dval mx + mean_tolerance (length temps) (max \<bar>dval mn\<bar> \<bar>dval mx\<bar>)"
proof -
  let ?u = unit_roundoff and ?m = min_normal
  let ?n = "of_nat (length temps) :: rat"
  let ?S = "sum_list (map dval temps)" and ?A = "sum_list (map (\<lambda>x. \<bar>dval x\<bar>) temps)"
  let ?B = "max \<bar>dval mn\<bar> \<bar>dval mx\<bar>"
  let ?c = "(1 + ?u) ^ (length temps + 1) - 1"
  from mean_error[OF fin ne len] have allfin: "\<forall>x \<in> set temps. is_finite x"
    and err: "\<bar>dval (mean_of temps) - ?S / ?n\<bar> \<le> ?c * ((?A + ?m) / ?n) + ?u * ?m" by auto
  have n1: "1 \<le> ?n" using ne by (cases temps) auto
  then have n: "0 < ?n" by linarith
  have nonan: "\<forall>x \<in> set temps. \<not> is_nan x"
  proof
    fix x assume "x \<in> set temps"
    with allfin have "is_finite x" by blast
    then show "\<not> is_nan x" by (cases x) auto
  qed
  from minmax_element_mem[OF mm] allfin have fm: "is_finite mn" "is_finite mx" by auto
  have bounds: "\<forall>x \<in> set temps. dval mn \<le> dval x \<and> dval x \<le> dval mx"
  proof
    fix x assume x: "x \<in> set temps"
    with minmax_element_bounds[OF mm nonan] have d: "dle mn x" "dle x mx" by auto
    from x allfin have "is_finite x" by blast
    with fm d show "dval mn \<le> dval x \<and> dval x \<le> dval mx"
      by (cases mn; cases mx; cases x) (auto simp: dle_finite)
  qed
  then have absb: "\<forall>x \<in> set temps. 0 \<le> \<bar>dval x\<bar> \<and> \<bar>dval x\<bar> \<le> ?B" by auto
  from sum_list_between[OF bounds] have S: "?n * dval mn \<le> ?S" "?S \<le> ?n * dval mx" by auto
  have lo: "dval mn \<le> ?S / ?n" using S(1) n by (simp add: field_simps)
  have hi: "?S / ?n \<le> dval mx" using S(2) n by (simp add: field_simps)
  from sum_list_between[OF absb] have "?A \<le> ?n * ?B" by auto
  then have "?A / ?n \<le> ?B" using n by (simp add: field_simps)
  moreover have "?m / ?n \<le> ?m"
  proof -
    have "?m / ?n \<le> ?m / 1" using n1 min_normal_pos by (intro divide_left_mono) auto
    then show ?thesis by simp
  qed
  ultimately have avg: "(?A + ?m) / ?n \<le> ?B + ?m" by (simp add: add_divide_distrib)
  have "1 \<le> (1 + ?u) ^ (length temps + 1)"
    using unit_roundoff_pos by (intro one_le_power) simp
  then have c: "0 \<le> ?c" by linarith
  have "?c * ((?A + ?m) / ?n) \<le> ?c * (?B + ?m)" using c avg by (rule mult_left_mono[rotated])
  with err have "\<bar>dval (mean_of temps) - ?S / ?n\<bar> \<le> mean_tolerance (length temps) ?B"
    unfolding mean_tolerance_def by linarith
  with lo hi show ?thesis by linarith
qed

subsection \<open>The entries of the report\<close>

lemma entry_statistics:
  assumes ne: "temps \<noteq> []"
  shows "\<exists>mn mx. minmax_element temps = Some (mn, mx)
     \<and> mn \<in> set temps \<and> mx \<in> set temps
     \<and> report_line (key, temps)
         = key @ ''='' @ fmt_fixed1 mn @ ''/'' @ fmt_fixed1 (mean_of temps) @ ''/''
             @ fmt_fixed1 mx @ ''\<newline>''
     \<and> ((\<forall>v \<in> set temps. \<not> is_nan v) \<longrightarrow> dle mn mx \<and> (\<forall>v \<in> set temps. dle mn v \<and> dle v mx))
     \<and> (is_finite (mean_of temps) \<and> length temps < 2 ^ 53 \<longrightarrow>
          dval mn - mean_tolerance (length temps) (max \<bar>dval mn\<bar> \<bar>dval mx\<bar>)
            \<le> dval (mean_of temps)
          \<and> dval (mean_of temps)
            \<le> dval mx + mean_tolerance (length temps) (max \<bar>dval mn\<bar> \<bar>dval mx\<bar>))"
proof -
  from minmax_element_Some[OF ne] obtain mn mx where mm: "minmax_element temps = Some (mn, mx)"
    by blast
  note mem = minmax_element_mem[OF mm]
  have line: "report_line (key, temps)
         = key @ ''='' @ fmt_fixed1 mn @ ''/'' @ fmt_fixed1 (mean_of temps) @ ''/''
             @ fmt_fixed1 mx @ ''\<newline>''"
    by (simp add: report_line_def mm)
  have ord: "dle mn mx \<and> (\<forall>v \<in> set temps. dle mn v \<and> dle v mx)"
    if "\<forall>v \<in> set temps. \<not> is_nan v"
    using minmax_element_bounds[OF mm that] mem by blast
  have tol: "dval mn - mean_tolerance (length temps) (max \<bar>dval mn\<bar> \<bar>dval mx\<bar>)
            \<le> dval (mean_of temps)
          \<and> dval (mean_of temps)
            \<le> dval mx + mean_tolerance (length temps) (max \<bar>dval mn\<bar> \<bar>dval mx\<bar>)"
    if "is_finite (mean_of temps) \<and> length temps < 2 ^ 53"
    using mean_within_tolerance[OF _ ne _ mm] that by blast
  from mm mem line ord tol show ?thesis by blast
qed

subsection \<open>Rounding to nearest, evaluated\<close>

lemma round_even_mono: "x \<le> y \<Longrightarrow> round_even x \<le> round_even y"
proof (rule ccontr)
  assume xy: "x \<le> y" and "\<not> round_even x \<le> round_even y"
  then have gt: "round_even y + 1 \<le> round_even x" by simp
  then have "(of_int (round_even y) :: rat) + 1 \<le> of_int (round_even x)"
    by (metis of_int_1 of_int_add of_int_le_iff)
  with round_even_error[of x] round_even_error[of y] xy have "x = y" by linarith
  with gt show False by simp
qed

lemma round_even_minus: "round_even (- x) = - round_even x"
proof (cases "x = of_int \<lfloor>x\<rfloor>")
  case True
  then have "- x = of_int (- \<lfloor>x\<rfloor>)" by simp
  then have "round_even (- x) = - \<lfloor>x\<rfloor>" by (simp only: round_even_of_int)
  moreover have "round_even x = \<lfloor>x\<rfloor>" using True by (metis round_even_of_int)
  ultimately show ?thesis by simp
next
  case False
  then have fl: "\<lfloor>- x\<rfloor> = - \<lfloor>x\<rfloor> - 1" by (simp add: floor_minus ceiling_altdef)
  define d where "d = x - of_int \<lfloor>x\<rfloor>"
  have d: "0 < d" "d < 1" using False unfolding d_def by linarith+
  have d': "- x - of_int (- \<lfloor>x\<rfloor> - 1) = 1 - d" unfolding d_def by simp
  have ev: "even (- \<lfloor>x\<rfloor> - 1) \<longleftrightarrow> odd \<lfloor>x\<rfloor>" by simp
  have l: "round_even (- x)
      = (if 1 - d < 1 / 2 then - \<lfloor>x\<rfloor> - 1 else if 1 / 2 < 1 - d then - \<lfloor>x\<rfloor>
         else if odd \<lfloor>x\<rfloor> then - \<lfloor>x\<rfloor> - 1 else - \<lfloor>x\<rfloor>)"
    unfolding round_even_def Let_def fl d' ev by simp
  have r: "round_even x
      = (if d < 1 / 2 then \<lfloor>x\<rfloor> else if 1 / 2 < d then \<lfloor>x\<rfloor> + 1
         else if even \<lfloor>x\<rfloor> then \<lfloor>x\<rfloor> else \<lfloor>x\<rfloor> + 1)"
    unfolding round_even_def Let_def d_def by simp
  show ?thesis unfolding l r using d by (auto simp: not_less)
qed

lemma round_double_eval:
  assumes "2 powi k \<le> q" "q < 2 powi (k + 1)" "- 1022 \<le> k" "k \<le> 1022"
    and "round_even (q / 2 powi (k - 52)) = n"
  shows "round_double s q = Finite s (of_int n * 2 powi (k - 52))"
    and "\<not> erange q" and "strtod_seen q = q"
proof -
  have "(0::rat) < 2 powi k" by simp
  with assms(1) have q: "0 < q" by linarith
  have fl: "floor_log2 q = k" using assms(1,2) by (rule floor_log2_unique)
  have mx: "max (k - 52) (- 1074) = k - 52" using assms(3) by simp
  have rt: "round_to (k - 52) q = of_int n * 2 powi (k - 52)"
    by (simp add: round_to_def assms(5))
  have e: "(2::rat) powi (k - 52) = 2 powi k / 2 ^ 52" by (simp add: power_int_diff)
  have "2 powi k / 2 powi (k - 52) \<le> q / 2 powi (k - 52)"
    using assms(1) by (intro divide_right_mono) auto
  then have "round_even (2 powi k / 2 powi (k - 52)) \<le> n"
    unfolding assms(5)[symmetric] by (rule round_even_mono)
  moreover have "(2::rat) powi k / 2 powi (k - 52) = of_int (2 ^ 52)" by (simp add: e)
  ultimately have n: "2 ^ 52 \<le> n" by (simp only: round_even_of_int)
  then have "(2::rat) ^ 52 \<le> of_int n" by (metis of_int_le_iff of_int_numeral of_int_power)
  then have "2 ^ 52 * (2::rat) powi (k - 52) \<le> of_int n * 2 powi (k - 52)"
    by (intro mult_right_mono) auto
  then have ge: "2 powi k \<le> round_to (k - 52) q" by (simp add: rt e)
  have "(2::rat) powi (- 1022) \<le> 2 powi k" using assms(3) by (intro power_int_increasing) auto
  with ge have lo: "2 powi (- 1022) \<le> round_to (k - 52) q" by linarith
  have "round_to (k - 52) q \<le> q + 2 powi (k - 52) / 2"
    using round_to_error[of "k - 52" q] by linarith
  also have "\<dots> < 2 powi (k + 1) + 2 powi (k - 52) / 2" using assms(2) by simp
  also have "\<dots> \<le> 2 powi (k + 1) + 2 powi (k + 1)"
  proof -
    have "(2::rat) powi (k - 52) \<le> 2 powi (k + 1)" by (intro power_int_increasing) auto
    moreover have "(0::rat) < 2 powi (k - 52)" by simp
    ultimately show ?thesis by linarith
  qed
  also have "\<dots> = 2 powi (k + 2)" by (simp add: power_int_add)
  also have "\<dots> \<le> 2 powi 1024" using assms(4) by (intro power_int_increasing) auto
  finally have hi: "round_to (k - 52) q < 2 ^ 1024" by simp
  have nb: "\<not> below_normal q" using lo by (simp add: below_normal_def fl)
  show "round_double s q = Finite s (of_int n * 2 powi (k - 52))"
    using q hi by (simp add: round_double_def fl mx rt[symmetric])
  show "\<not> erange q" using q hi nb by (simp add: erange_def fl)
  show "strtod_seen q = q" using nb by (simp add: strtod_seen_def)
qed

lemma round_even_near: "\<bar>x - of_int n\<bar> < 1 / 2 \<Longrightarrow> round_even x = n"
proof -
  assume a: "\<bar>x - of_int n\<bar> < 1 / 2"
  with round_even_error[of x] have "\<bar>(of_int (round_even x) :: rat) - of_int n\<bar> < 1" by linarith
  then have "\<bar>(of_int (round_even x - n) :: rat)\<bar> < 1" by simp
  then have "\<bar>round_even x - n\<bar> < 1" by (metis of_int_abs of_int_less_1_iff)
  then show ?thesis by simp
qed

lemma round_even_tie:
  assumes "\<bar>x - of_int n\<bar> = 1 / 2" "even n"
  shows "round_even x = n"
proof (cases "of_int n \<le> x")
  case True
  with assms(1) have x: "x = of_int n + 1 / 2" by linarith
  have "\<lfloor>x\<rfloor> = n" unfolding x by linarith
  then show ?thesis using assms(2) by (simp add: round_even_def Let_def x)
next
  case False
  with assms(1) have x: "x = of_int (n - 1) + 1 / 2" by simp
  have f: "\<lfloor>x\<rfloor> = n - 1" unfolding x by linarith
  have "x - of_int (n - 1) = 1 / 2" unfolding x by simp
  then show ?thesis using assms(2) unfolding round_even_def Let_def f by simp
qed

lemma round_double_at:
  assumes "2 powi k \<le> q \<and> q < 2 powi (k + 1) \<and> - 1022 \<le> k \<and> k \<le> 1022
     \<and> r = of_int n * 2 powi (k - 52)
     \<and> (\<bar>q - r\<bar> * 2 < 2 powi (k - 52) \<or> \<bar>q - r\<bar> * 2 = 2 powi (k - 52) \<and> even n)"
  shows "round_double s q = Finite s r" and "\<not> erange q" and "strtod_seen q = q"
proof -
  let ?p = "(2::rat) powi (k - 52)"
  have p: "0 < ?p" by simp
  have "q / ?p - of_int n = (q - r) / ?p" using assms p by (simp add: field_simps)
  then have d: "\<bar>q / ?p - of_int n\<bar> = \<bar>q - r\<bar> / ?p" using p by simp
  have "round_even (q / ?p) = n"
  proof (cases "\<bar>q - r\<bar> * 2 < ?p")
    case True
    then have "\<bar>q / ?p - of_int n\<bar> < 1 / 2" unfolding d using p by (simp add: field_simps)
    then show ?thesis by (rule round_even_near)
  next
    case False
    with assms have t: "\<bar>q - r\<bar> * 2 = ?p" "even n" by auto
    then have "\<bar>q / ?p - of_int n\<bar> = 1 / 2" unfolding d using p by (simp add: field_simps)
    then show ?thesis using t(2) by (rule round_even_tie)
  qed
  with round_double_eval[where k=k and q=q and n=n] assms
  show "round_double s q = Finite s r" and "\<not> erange q" and "strtod_seen q = q" by auto
qed

lemma dadd_at:
  assumes "0 \<le> a \<and> 0 \<le> b \<and> 2 powi k \<le> a + b \<and> a + b < 2 powi (k + 1)
     \<and> - 1022 \<le> k \<and> k \<le> 1022
     \<and> r = of_int n * 2 powi (k - 52)
     \<and> (\<bar>a + b - r\<bar> * 2 < 2 powi (k - 52) \<or> \<bar>a + b - r\<bar> * 2 = 2 powi (k - 52) \<and> even n)"
  shows "dadd (Finite False a) (Finite False b) = Finite False r"
proof -
  have "(0::rat) < 2 powi k" by simp
  with assms have pos: "0 < a + b" by linarith
  have "round_double False (a + b) = Finite False r"
    by (rule round_double_at(1)[where k=k and n=n]) (use assms in blast)
  with pos show ?thesis by (simp add: signed_def Let_def)
qed

lemma ddiv_at:
  assumes "0 < b \<and> 2 powi k \<le> a / b \<and> a / b < 2 powi (k + 1)
     \<and> - 1022 \<le> k \<and> k \<le> 1022
     \<and> r = of_int n * 2 powi (k - 52)
     \<and> (\<bar>a / b - r\<bar> * 2 < 2 powi (k - 52) \<or> \<bar>a / b - r\<bar> * 2 = 2 powi (k - 52) \<and> even n)"
  shows "ddiv (Finite False a) (Finite False b) = Finite False r"
proof -
  have "round_double False (a / b) = Finite False r"
    by (rule round_double_at(1)[where k=k and n=n]) (use assms in blast)
  with assms show ?thesis by simp
qed

subsection \<open>Six readings of 0.35\<close>

lemma stod_035: "stod ''0.35'' = Inr (Finite False (3152519739159347 / 9007199254740992))"
proof -
  let ?v = "3152519739159347 / 9007199254740992 :: rat"
  have d: "dropWhile isspace ''0.35'' = ''0.35''" by code_simp
  have n: "scan_number ''0.35'' = Some (PNum (7 / 20))" by code_simp
  have h: "2 powi (- 2) \<le> (7 / 20 :: rat) \<and> (7 / 20 :: rat) < 2 powi (- 2 + 1)
     \<and> - 1022 \<le> (- 2 :: int) \<and> (- 2 :: int) \<le> 1022
     \<and> ?v = of_int 6305039478318694 * 2 powi (- 2 - 52)
     \<and> (\<bar>7 / 20 - ?v\<bar> * 2 < 2 powi (- 2 - 52)
         \<or> \<bar>7 / 20 - ?v\<bar> * 2 = 2 powi (- 2 - 52) \<and> even (6305039478318694 :: int))"
    by (simp add: power_int_minus_divide)
  note r = round_double_at[OF h]
  show ?thesis unfolding stod_def d by (simp add: scan_sign_def n r)
qed

lemma replicate_six: "replicate 6 x = [x, x, x, x, x, x]"
  by (simp add: numeral_Bit0 numeral_Bit1)

lemma mean_six_035:
  "mean_of (replicate 6 (Finite False (3152519739159347 / 9007199254740992)))
     = Finite False (6305039478318695 / 18014398509481984)"
proof -
  let ?v = "3152519739159347 / 9007199254740992 :: rat"
  have h1: "0 \<le> (0::rat) \<and> 0 \<le> ?v \<and> 2 powi (- 2) \<le> 0 + ?v \<and> 0 + ?v < 2 powi (- 2 + 1)
     \<and> - 1022 \<le> (- 2 :: int) \<and> (- 2 :: int) \<le> 1022
     \<and> ?v = of_int 6305039478318694 * 2 powi (- 2 - 52)
     \<and> (\<bar>0 + ?v - ?v\<bar> * 2 < 2 powi (- 2 - 52)
         \<or> \<bar>0 + ?v - ?v\<bar> * 2 = 2 powi (- 2 - 52) \<and> even (6305039478318694 :: int))"
    by (simp add: power_int_minus_divide)
  let ?s2 = "3152519739159347 / 4503599627370496 :: rat"
  have h2: "0 \<le> ?v \<and> 0 \<le> ?v \<and> 2 powi (- 1) \<le> ?v + ?v \<and> ?v + ?v < 2 powi (- 1 + 1)
     \<and> - 1022 \<le> (- 1 :: int) \<and> (- 1 :: int) \<le> 1022
     \<and> ?s2 = of_int 6305039478318694 * 2 powi (- 1 - 52)
     \<and> (\<bar>?v + ?v - ?s2\<bar> * 2 < 2 powi (- 1 - 52)
         \<or> \<bar>?v + ?v - ?s2\<bar> * 2 = 2 powi (- 1 - 52) \<and> even (6305039478318694 :: int))"
    by (simp add: power_int_minus_divide)
  let ?s3 = "1182194902184755 / 1125899906842624 :: rat"
  have h3: "0 \<le> ?s2 \<and> 0 \<le> ?v \<and> 2 powi 0 \<le> ?s2 + ?v \<and> ?s2 + ?v < 2 powi (0 + 1)
     \<and> - 1022 \<le> (0 :: int) \<and> (0 :: int) \<le> 1022
     \<and> ?s3 = of_int 4728779608739020 * 2 powi (0 - 52)
     \<and> (\<bar>?s2 + ?v - ?s3\<bar> * 2 < 2 powi (0 - 52)
         \<or> \<bar>?s2 + ?v - ?s3\<bar> * 2 = 2 powi (0 - 52) \<and> even (4728779608739020 :: int))"
    by (simp add: power_int_minus_divide)
  let ?s4 = "3152519739159347 / 2251799813685248 :: rat"
  have h4: "0 \<le> ?s3 \<and> 0 \<le> ?v \<and> 2 powi 0 \<le> ?s3 + ?v \<and> ?s3 + ?v < 2 powi (0 + 1)
     \<and> - 1022 \<le> (0 :: int) \<and> (0 :: int) \<le> 1022
     \<and> ?s4 = of_int 6305039478318694 * 2 powi (0 - 52)
     \<and> (\<bar>?s3 + ?v - ?s4\<bar> * 2 < 2 powi (0 - 52)
         \<or> \<bar>?s3 + ?v - ?s4\<bar> * 2 = 2 powi (0 - 52) \<and> even (6305039478318694 :: int))"
    by (simp add: power_int_minus_divide)
  let ?s5 = "7 / 4 :: rat"
  have h5: "0 \<le> ?s4 \<and> 0 \<le> ?v \<and> 2 powi 0 \<le> ?s4 + ?v \<and> ?s4 + ?v < 2 powi (0 + 1)
     \<and> - 1022 \<le> (0 :: int) \<and> (0 :: int) \<le> 1022
     \<and> ?s5 = of_int 7881299347898368 * 2 powi (0 - 52)
     \<and> (\<bar>?s4 + ?v - ?s5\<bar> * 2 < 2 powi (0 - 52)
         \<or> \<bar>?s4 + ?v - ?s5\<bar> * 2 = 2 powi (0 - 52) \<and> even (7881299347898368 :: int))"
    by (simp add: power_int_minus_divide)
  let ?s6 = "4728779608739021 / 2251799813685248 :: rat"
  have h6: "0 \<le> ?s5 \<and> 0 \<le> ?v \<and> 2 powi 1 \<le> ?s5 + ?v \<and> ?s5 + ?v < 2 powi (1 + 1)
     \<and> - 1022 \<le> (1 :: int) \<and> (1 :: int) \<le> 1022
     \<and> ?s6 = of_int 4728779608739021 * 2 powi (1 - 52)
     \<and> (\<bar>?s5 + ?v - ?s6\<bar> * 2 < 2 powi (1 - 52)
         \<or> \<bar>?s5 + ?v - ?s6\<bar> * 2 = 2 powi (1 - 52) \<and> even (4728779608739021 :: int))"
    by (simp add: power_int_minus_divide)
  let ?m = "6305039478318695 / 18014398509481984 :: rat"
  have hm: "0 < (6::rat) \<and> 2 powi (- 2) \<le> ?s6 / 6 \<and> ?s6 / 6 < 2 powi (- 2 + 1)
     \<and> - 1022 \<le> (- 2 :: int) \<and> (- 2 :: int) \<le> 1022
     \<and> ?m = of_int 6305039478318695 * 2 powi (- 2 - 52)
     \<and> (\<bar>?s6 / 6 - ?m\<bar> * 2 < 2 powi (- 2 - 52)
         \<or> \<bar>?s6 / 6 - ?m\<bar> * 2 = 2 powi (- 2 - 52) \<and> even (6305039478318695 :: int))"
    by (simp add: power_int_minus_divide)
  have six: "double_of_size 6 = Finite False 6"
    using double_of_size_exact[of 6] by simp
  have rep: "replicate 6 (Finite False ?v)
      = [Finite False ?v, Finite False ?v, Finite False ?v, Finite False ?v, Finite False ?v,
         Finite False ?v]"
    by (rule replicate_six)
  have acc: "accumulate (replicate 6 (Finite False ?v)) = Finite False ?s6"
    unfolding rep accumulate_def
    by (simp only: foldl.simps dadd_at[OF h1] dadd_at[OF h2] dadd_at[OF h3] dadd_at[OF h4]
        dadd_at[OF h5] dadd_at[OF h6])
  have len: "length (replicate 6 (Finite False ?v)) = 6" by simp
  show ?thesis
    unfolding mean_of_def acc len six by (rule ddiv_at[OF hm])
qed

lemma fmt_035:
  "fmt_fixed1 (Finite False (3152519739159347 / 9007199254740992)) = ''0.3''"
  "fmt_fixed1 (Finite False (6305039478318695 / 18014398509481984)) = ''0.4''"
  by code_simp+

subsection \<open>The printed numbers\<close>

declare show_nat.simps [simp del]

lemma digit_val_digit: "n < 10 \<Longrightarrow> digit_val (char_of (n + 48)) = Some n"
  by (simp add: digit_val_def less_eq_char_def)

lemma digit_val_not_digit:
  "digit_val CHR ''.'' = None" "digit_val CHR ''-'' = None" "digit_val CHR ''+'' = None"
  by (simp_all add: digit_val_def less_eq_char_def)

lemma scan_digits_show_nat:
  "scan_digits digit_val 10 (show_nat n @ r) acc k
     = scan_digits digit_val 10 r (acc * 10 ^ length (show_nat n) + n) (k + length (show_nat n))"
proof (induction n arbitrary: acc k r rule: show_nat.induct)
  case (1 n)
  show ?case
  proof (cases "n < 10")
    case True
    then have s: "show_nat n = [char_of (n + 48)]" by (subst show_nat.simps) simp
    show ?thesis unfolding s using True by (simp add: digit_val_digit)
  next
    case False
    then have s: "show_nat n = show_nat (n div 10) @ [char_of (n mod 10 + 48)]"
      by (subst show_nat.simps) simp
    have d: "digit_val (char_of (n mod 10 + 48)) = Some (n mod 10)"
      by (rule digit_val_digit) simp
    have "scan_digits digit_val 10 (show_nat n @ r) acc k
        = scan_digits digit_val 10 (show_nat (n div 10) @ (char_of (n mod 10 + 48) # r)) acc k"
      unfolding s by simp
    also have "\<dots> = scan_digits digit_val 10 (char_of (n mod 10 + 48) # r)
        (acc * 10 ^ length (show_nat (n div 10)) + n div 10) (k + length (show_nat (n div 10)))"
      by (rule "1.IH"[OF False])
    also have "\<dots> = scan_digits digit_val 10 r
        ((acc * 10 ^ length (show_nat (n div 10)) + n div 10) * 10 + n mod 10)
        (Suc (k + length (show_nat (n div 10))))"
      by (simp add: d)
    also have "(acc * 10 ^ length (show_nat (n div 10)) + n div 10) * 10 + n mod 10
        = acc * 10 ^ length (show_nat n) + n"
      unfolding s by (simp add: algebra_simps)
    also have "Suc (k + length (show_nat (n div 10))) = k + length (show_nat n)"
      unfolding s by simp
    finally show ?thesis .
  qed
qed

lemma show_nat_nonempty: "show_nat n \<noteq> []"
  by (subst show_nat.simps) simp

lemma show_nat_digit: "n < 10 \<Longrightarrow> show_nat n = [char_of (n + 48)]"
  by (subst show_nat.simps) simp

lemma show_nat_hd_digit: "\<exists>c cs d. show_nat n = c # cs \<and> digit_val c = Some d"
proof (induction n rule: show_nat.induct)
  case (1 n)
  show ?case
  proof (cases "n < 10")
    case True
    then show ?thesis by (simp add: show_nat_digit digit_val_digit)
  next
    case False
    then have s: "show_nat n = show_nat (n div 10) @ [char_of (n mod 10 + 48)]"
      by (subst show_nat.simps) simp
    from "1.IH"[OF False] show ?thesis unfolding s by auto
  qed
qed

lemma scan_mantissa_fixed1:
  assumes "b < 10"
  shows "scan_mantissa digit_val 10 (show_nat a @ CHR ''.'' # show_nat b)
     = Some (a * 10 + b, 1, [])"
proof -
  have l: "0 < length (show_nat a)" using show_nat_nonempty[of a] by simp
  have 1: "scan_digits digit_val 10 (show_nat a @ CHR ''.'' # show_nat b) 0 0
      = (a, length (show_nat a), CHR ''.'' # show_nat b)"
    by (simp add: scan_digits_show_nat digit_val_not_digit)
  have 2: "scan_digits digit_val 10 (show_nat b) a 0 = (a * 10 + b, 1, [])"
    using assms by (simp add: show_nat_digit digit_val_digit)
  show ?thesis
    unfolding scan_mantissa_def 1 using l by (simp add: 2)
qed

lemma scan_sign_show_nat: "scan_sign (show_nat a @ r) = (False, show_nat a @ r)"
proof -
  from show_nat_hd_digit[of a] obtain c cs d where s: "show_nat a = c # cs"
    and d: "digit_val c = Some d" by blast
  from d have "c \<noteq> CHR ''-''" "c \<noteq> CHR ''+''" using digit_val_not_digit by auto
  then show ?thesis unfolding s by (simp add: scan_sign_def)
qed

lemma read_fixed1_fmt:
  "read_fixed1 (fmt_fixed1 (Finite s q)) = Some (printed_value (Finite s q))"
proof -
  let ?t = "nat (round_even (q * 10))"
  let ?body = "show_nat (?t div 10) @ CHR ''.'' # show_nat (?t mod 10)"
  have f: "fmt_fixed1 (Finite s q) = show_sign s @ ?body" by (simp add: Let_def)
  have sg: "scan_sign (show_sign s @ ?body) = (s, ?body)"
  proof (cases s)
    case True
    then show ?thesis by (simp add: show_sign_def scan_sign_def)
  next
    case False
    then show ?thesis using scan_sign_show_nat[of "?t div 10"] by (simp add: show_sign_def)
  qed
  have m: "scan_mantissa digit_val 10 ?body = Some (?t div 10 * 10 + ?t mod 10, 1, [])"
    by (rule scan_mantissa_fixed1) simp
  have t: "?t div 10 * 10 + ?t mod 10 = ?t" by simp
  show ?thesis
    unfolding f read_fixed1_def sg by (simp add: m)
qed

lemma drop_guard_bit_nonneg:
  assumes "0 \<le> q"
  shows "0 \<le> drop_guard_bit q"
proof -
  let ?w = "(2::rat) powi (floor_log2 q - 53)"
  have w: "0 < ?w" by simp
  have f0: "0 \<le> \<lfloor>q / ?w\<rfloor>" using assms w by simp
  then have "\<lfloor>q / ?w\<rfloor> mod 2 \<le> \<lfloor>q / ?w\<rfloor>" by (simp add: zmod_le_nonneg_dividend)
  then have "(of_int (\<lfloor>q / ?w\<rfloor> mod 2) :: rat) \<le> of_int \<lfloor>q / ?w\<rfloor>" by (simp only: of_int_le_iff)
  also have "\<dots> \<le> q / ?w" by simp
  finally have "of_int (\<lfloor>q / ?w\<rfloor> mod 2) * ?w \<le> q" using w by (simp add: field_simps)
  then show ?thesis by (simp add: drop_guard_bit_def Let_def)
qed

lemma strtod_seen_nonneg: "0 \<le> q \<Longrightarrow> 0 \<le> strtod_seen q"
  by (simp add: strtod_seen_def drop_guard_bit_nonneg)

lemma round_double_mag_ok: "0 \<le> q \<Longrightarrow> mag_ok (round_double s q)"
  using round_double_error[of q s] by (cases "round_double s q") auto

lemma scan_number_nonneg: "scan_number body = Some (PNum q) \<Longrightarrow> 0 \<le> q"
  by (auto simp: scan_number_def split: option.splits if_splits)

lemma stod_mag_ok: "stod str = Inr x \<Longrightarrow> mag_ok x"
  by (auto simp: stod_def split: prod.splits option.splits parsed.splits if_splits
      intro!: round_double_mag_ok strtod_seen_nonneg dest: scan_number_nonneg)

lemma values_push_back_at:
  "e \<in> set (push_back_at k v st) \<Longrightarrow> x \<in> set (snd e) \<Longrightarrow>
     x = v \<or> (\<exists>e' \<in> set st. x \<in> set (snd e'))"
  by (induction k v st rule: push_back_at.induct) (auto split: if_splits)

lemma read_loop_mag_ok:
  "read_loop st lines = Inr st' \<Longrightarrow> \<forall>e \<in> set st. \<forall>x \<in> set (snd e). mag_ok x \<Longrightarrow>
     \<forall>e \<in> set st'. \<forall>x \<in> set (snd e). mag_ok x"
proof (induction lines arbitrary: st)
  case Nil
  then show ?case by simp
next
  case (Cons line rest)
  from read_loop_Cons_Inr[OF Cons.prems(1)] obtain st1
    where p: "process_line st line = Inr st1" and r: "read_loop st1 rest = Inr st'" by blast
  have "\<forall>e \<in> set st1. \<forall>x \<in> set (snd e). mag_ok x"
  proof (cases "CHR ''='' \<in> set line")
    case False
    with process_line_cases[OF p] Cons.prems(2) show ?thesis by auto
  next
    case True
    with process_line_cases[OF p] obtain temp where t: "stod (value_of line) = Inr temp"
      and s: "st1 = push_back_at (key_of line) temp st" by auto
    from stod_mag_ok[OF t] Cons.prems(2) show ?thesis
      unfolding s using values_push_back_at by blast
  qed
  with Cons.IH[OF r] show ?case .
qed

lemma mean_mag_ok:
  assumes "temps \<noteq> []" "length temps < 2 ^ 53"
  shows "mag_ok (mean_of temps)"
proof (cases "accumulate temps")
  case (Finite s a)
  have a: "0 \<le> a" using Finite unfolding accumulate_def by (rule foldl_dadd_mag_nonneg)
  have dsz: "double_of_size (length temps) = Finite False (of_nat (length temps))"
    using assms by (intro double_of_size_exact) auto
  have n: "(0::rat) < of_nat (length temps)" using assms(1) by simp
  have "mean_of temps = round_double s (a / of_nat (length temps))"
    using n by (simp add: mean_of_def Finite dsz)
  moreover have "0 \<le> a / of_nat (length temps)" using a n by simp
  ultimately show ?thesis by (simp add: round_double_mag_ok)
next
  case (Infinity s)
  have dsz: "double_of_size (length temps) = Finite False (of_nat (length temps))"
    using assms by (intro double_of_size_exact) auto
  show ?thesis by (simp add: mean_of_def Infinity dsz)
next
  case (NaN s)
  show ?thesis by (simp add: mean_of_def NaN)
qed

lemma printed_value_round:
  assumes "0 \<le> q"
  shows "printed_value (Finite s q) = of_int (round_even (dval (Finite s q) * 10)) / 10"
proof -
  have "0 \<le> round_even (q * 10)" using assms by (intro round_even_nonneg) simp
  then have n: "(of_nat (nat (round_even (q * 10))) :: rat) = of_int (round_even (q * 10))" by simp
  show ?thesis
  proof (cases s)
    case True
    have "round_even (- q * 10) = - round_even (q * 10)"
      using round_even_minus[of "q * 10"] by simp
    then show ?thesis using True by (simp add: n signed_def)
  next
    case False
    then show ?thesis by (simp add: n signed_def)
  qed
qed

lemma printed_value_close:
  assumes "is_finite d" "mag_ok d"
  shows "\<bar>printed_value d - dval d\<bar> \<le> 1 / 20"
proof -
  from assms obtain s q where d: "d = Finite s q" and q: "0 \<le> q" by (cases d) auto
  have "\<bar>of_int (round_even (dval d * 10)) - dval d * 10\<bar> \<le> 1 / 2" by (rule round_even_error)
  then show ?thesis unfolding d printed_value_round[OF q] by (simp add: field_simps abs_le_iff)
qed

lemma printed_value_mono:
  assumes "is_finite d" "mag_ok d" "is_finite d'" "mag_ok d'" "dval d \<le> dval d'"
  shows "printed_value d \<le> printed_value d'"
proof -
  from assms obtain s q where d: "d = Finite s q" and q: "0 \<le> q" by (cases d) auto
  from assms obtain s' q' where d': "d' = Finite s' q'" and q': "0 \<le> q'" by (cases d') auto
  have "round_even (dval d * 10) \<le> round_even (dval d' * 10)"
    using assms(5) by (intro round_even_mono) simp
  then show ?thesis unfolding d d' printed_value_round[OF q] printed_value_round[OF q']
    by (simp add: divide_right_mono)
qed

lemma read_fixed1_finite:
  "is_finite d \<Longrightarrow> read_fixed1 (fmt_fixed1 d) = Some (printed_value d)"
  by (cases d) (simp_all only: read_fixed1_fmt is_finite.simps)

lemma mean_tolerance_mono: "b \<le> b' \<Longrightarrow> mean_tolerance n b \<le> mean_tolerance n b'"
proof -
  assume b: "b \<le> b'"
  have "1 \<le> (1 + unit_roundoff) ^ (n + 1)"
    using unit_roundoff_pos by (intro one_le_power) simp
  then have "0 \<le> (1 + unit_roundoff) ^ (n + 1) - 1" by linarith
  then have "((1 + unit_roundoff) ^ (n + 1) - 1) * (b + min_normal)
      \<le> ((1 + unit_roundoff) ^ (n + 1) - 1) * (b' + min_normal)"
    using b by (intro mult_left_mono) auto
  then show ?thesis by (simp add: mean_tolerance_def)
qed

subsection \<open>The entries of the report, as computed and as printed\<close>

lemma entry_printed:
  assumes ne: "temps \<noteq> []" and mm: "minmax_element temps = Some (mn, mx)"
    and ok: "\<forall>x \<in> set temps. mag_ok x"
    and fin: "is_finite (mean_of temps)" and len: "length temps < 2 ^ 53"
  shows "\<exists>pmn pmean pmx.
       read_fixed1 (fmt_fixed1 mn) = Some pmn
     \<and> read_fixed1 (fmt_fixed1 (mean_of temps)) = Some pmean
     \<and> read_fixed1 (fmt_fixed1 mx) = Some pmx
     \<and> pmn \<le> pmx
     \<and> pmn - 1 / 10 - mean_tolerance (length temps) (max \<bar>pmn\<bar> \<bar>pmx\<bar> + 1 / 20) \<le> pmean
     \<and> pmean \<le> pmx + 1 / 10 + mean_tolerance (length temps) (max \<bar>pmn\<bar> \<bar>pmx\<bar> + 1 / 20)"
proof -
  let ?mean = "mean_of temps"
  let ?tol = "mean_tolerance (length temps) (max \<bar>dval mn\<bar> \<bar>dval mx\<bar>)"
  let ?T = "mean_tolerance (length temps)
     (max \<bar>printed_value mn\<bar> \<bar>printed_value mx\<bar> + 1 / 20)"
  from mean_error[OF fin ne len] have allfin: "\<forall>x \<in> set temps. is_finite x" by blast
  note mem = minmax_element_mem[OF mm]
  from mem allfin ok have f: "is_finite mn" "is_finite mx" and m: "mag_ok mn" "mag_ok mx"
    by auto
  have mo: "mag_ok ?mean" using ne len by (rule mean_mag_ok)
  from mean_within_tolerance[OF fin ne len mm]
  have b: "dval mn - ?tol \<le> dval ?mean" "dval ?mean \<le> dval mx + ?tol" by auto
  note c1 = printed_value_close[OF f(1) m(1)]
  note c2 = printed_value_close[OF f(2) m(2)]
  note c3 = printed_value_close[OF fin mo]
  have "max \<bar>dval mn\<bar> \<bar>dval mx\<bar>
      \<le> max \<bar>printed_value mn\<bar> \<bar>printed_value mx\<bar> + 1 / 20"
    using c1 c2 by linarith
  then have t: "?tol \<le> ?T" by (rule mean_tolerance_mono)
  have nonan: "\<forall>x \<in> set temps. \<not> is_nan x"
  proof
    fix x assume "x \<in> set temps"
    with allfin have "is_finite x" by blast
    then show "\<not> is_nan x" by (cases x) auto
  qed
  from minmax_element_bounds[OF mm nonan] mem have "dle mn mx" by blast
  with f have "dval mn \<le> dval mx" by (cases mn; cases mx) (auto simp: dle_finite)
  then have le: "printed_value mn \<le> printed_value mx"
    by (rule printed_value_mono[OF f(1) m(1) f(2) m(2)])
  have lo: "printed_value mn - 1 / 10 - ?T \<le> printed_value ?mean"
    using b(1) c1 c3 t by linarith
  have hi: "printed_value ?mean \<le> printed_value mx + 1 / 10 + ?T"
    using b(2) c2 c3 t by linarith
  from read_fixed1_finite[OF f(1)] read_fixed1_finite[OF fin] read_fixed1_finite[OF f(2)]
    le lo hi show ?thesis by blast
qed

text \<open>
  Claim C4 as the program has it. In a run that produces a report, the line of every
  key is computed from at least one value, and the minimum and the maximum printed are
  values of that key. When none of the values is NaN, the minimum is at most every
  value and every value at most the maximum. When the computed mean is finite (then all
  the values are finite and their running sum has not overflowed) and there are fewer
  than \<open>2^53\<close> values, the mean lies between the minimum and the maximum up to
  \<open>mean_tolerance\<close>, the accumulated rounding error of the additions and the
  division; and the three numbers as printed, each rounded to one decimal, satisfy
  min \<open>\<le>\<close> max, while the printed mean may leave the printed range by one unit of
  the last printed digit, \<open>0.1\<close>, on top of that tolerance.
\<close>

theorem report_entries_ordered:
  assumes "open_first fs input_files = Some content" and "main fs = Inr r"
    and "read_loop [] (getlines content) = Inr st" and "(key, temps) \<in> set st"
  shows "stdout r = concat (map report_line st)
     \<and> 1 \<le> length temps
     \<and> (\<exists>mn mx. minmax_element temps = Some (mn, mx)
          \<and> mn \<in> set temps \<and> mx \<in> set temps
          \<and> report_line (key, temps)
              = key @ ''='' @ fmt_fixed1 mn @ ''/'' @ fmt_fixed1 (mean_of temps) @ ''/''
                  @ fmt_fixed1 mx @ ''\<newline>''
          \<and> ((\<forall>v \<in> set temps. \<not> is_nan v) \<longrightarrow>
               dle mn mx \<and> (\<forall>v \<in> set temps. dle mn v \<and> dle v mx))
          \<and> (is_finite (mean_of temps) \<and> length temps < 2 ^ 53 \<longrightarrow>
               dval mn - mean_tolerance (length temps) (max \<bar>dval mn\<bar> \<bar>dval mx\<bar>)
                 \<le> dval (mean_of temps)
               \<and> dval (mean_of temps)
                 \<le> dval mx + mean_tolerance (length temps) (max \<bar>dval mn\<bar> \<bar>dval mx\<bar>)
               \<and> (\<exists>pmn pmean pmx.
                    read_fixed1 (fmt_fixed1 mn) = Some pmn
                  \<and> read_fixed1 (fmt_fixed1 (mean_of temps)) = Some pmean
                  \<and> read_fixed1 (fmt_fixed1 mx) = Some pmx
                  \<and> pmn \<le> pmx
                  \<and> pmn - 1 / 10
                      - mean_tolerance (length temps) (max \<bar>pmn\<bar> \<bar>pmx\<bar> + 1 / 20) \<le> pmean
                  \<and> pmean \<le> pmx + 1 / 10
                      + mean_tolerance (length temps) (max \<bar>pmn\<bar> \<bar>pmx\<bar> + 1 / 20))))"
proof -
  from assms(1-3) have out: "stdout r = concat (map report_line st)"
    by (auto simp: main_def report_def split: sum.splits)
  from read_loop_nonempty[OF assms(3)] assms(4) have ne: "temps \<noteq> []" by force
  then have l: "1 \<le> length temps" by (cases temps) auto
  from read_loop_mag_ok[OF assms(3)] assms(4) have ok: "\<forall>x \<in> set temps. mag_ok x" by force
  from entry_statistics[OF ne, of key] obtain mn mx where
    mm: "minmax_element temps = Some (mn, mx)" and mem: "mn \<in> set temps" "mx \<in> set temps"
    and line: "report_line (key, temps)
              = key @ ''='' @ fmt_fixed1 mn @ ''/'' @ fmt_fixed1 (mean_of temps) @ ''/''
                  @ fmt_fixed1 mx @ ''\<newline>''"
    and ord: "(\<forall>v \<in> set temps. \<not> is_nan v) \<longrightarrow>
               dle mn mx \<and> (\<forall>v \<in> set temps. dle mn v \<and> dle v mx)"
    and tol: "is_finite (mean_of temps) \<and> length temps < 2 ^ 53 \<longrightarrow>
               dval mn - mean_tolerance (length temps) (max \<bar>dval mn\<bar> \<bar>dval mx\<bar>)
                 \<le> dval (mean_of temps)
               \<and> dval (mean_of temps)
                 \<le> dval mx + mean_tolerance (length temps) (max \<bar>dval mn\<bar> \<bar>dval mx\<bar>)"
    by blast
  have pr: "\<exists>pmn pmean pmx.
                    read_fixed1 (fmt_fixed1 mn) = Some pmn
                  \<and> read_fixed1 (fmt_fixed1 (mean_of temps)) = Some pmean
                  \<and> read_fixed1 (fmt_fixed1 mx) = Some pmx
                  \<and> pmn \<le> pmx
                  \<and> pmn - 1 / 10
                      - mean_tolerance (length temps) (max \<bar>pmn\<bar> \<bar>pmx\<bar> + 1 / 20) \<le> pmean
                  \<and> pmean \<le> pmx + 1 / 10
                      + mean_tolerance (length temps) (max \<bar>pmn\<bar> \<bar>pmx\<bar> + 1 / 20)"
    if "is_finite (mean_of temps) \<and> length temps < 2 ^ 53"
    using entry_printed[OF ne mm ok] that by blast
  from out l mm mem line ord tol pr show ?thesis by blast
qed

lemma read_fixed1_values:
  "read_fixed1 ''0.3'' = Some (3 / 10)" "read_fixed1 ''0.4'' = Some (2 / 5)"
  "read_fixed1 ''5.0'' = Some 5" "read_fixed1 ''7.5'' = Some (15 / 2)"
  "read_fixed1 ''10.0'' = Some 10"
  by code_simp+

text \<open>
  Claim C4 says that for every input every printed entry has min \<open>\<le>\<close> mean
  \<open>\<le>\<close> max within a floating-point tolerance. Six lines \<open>A=0.35\<close> are finite
  and ordinary, yet the program prints \<open>A=0.3/0.4/0.3\<close>: the double nearest to 0.35
  lies below it and prints as 0.3, the computed mean lies above it and prints as 0.4,
  a tenth above the printed maximum. And \<open>std::stod\<close> accepts \<open>nan\<close>: for the
  single line \<open>A=nan\<close> the program prints \<open>A=nan/nan/nan\<close>, and NaN is not
  \<open>\<le>\<close> NaN, whatever the tolerance.
\<close>

theorem printed_entry_not_ordered:
  "main (single_file ''A=0.35\<newline>A=0.35\<newline>A=0.35\<newline>A=0.35\<newline>A=0.35\<newline>A=0.35\<newline>'')
     = Inr \<lparr>exit_code = 0, stdout = ''A=0.3/0.4/0.3\<newline>'', stderr = []\<rparr>
   \<and> read_fixed1 ''0.4'' = Some (2 / 5) \<and> read_fixed1 ''0.3'' = Some (3 / 10)
   \<and> \<not> (2 / 5 \<le> (3 / 10 :: rat))
   \<and> main (single_file ''A=nan\<newline>'')
       = Inr \<lparr>exit_code = 0, stdout = ''A=nan/nan/nan\<newline>'', stderr = []\<rparr>
   \<and> minmax_element [NaN False] = Some (NaN False, NaN False)
   \<and> mean_of [NaN False] = NaN False
   \<and> \<not> dle (NaN False) (NaN False)"
proof -
  let ?v = "Finite False (3152519739159347 / 9007199254740992)"
  have l6: "getlines ''A=0.35\<newline>A=0.35\<newline>A=0.35\<newline>A=0.35\<newline>A=0.35\<newline>A=0.35\<newline>''
      = [''A=0.35'', ''A=0.35'', ''A=0.35'', ''A=0.35'', ''A=0.35'', ''A=0.35'']"
    by code_simp
  have r6: "read_loop [] [''A=0.35'', ''A=0.35'', ''A=0.35'', ''A=0.35'', ''A=0.35'', ''A=0.35'']
      = Inr [(''A'', [?v, ?v, ?v, ?v, ?v, ?v])]"
    by (simp add: process_line_def stod_035)
  have m6: "mean_of [?v, ?v, ?v, ?v, ?v, ?v]
      = Finite False (6305039478318695 / 18014398509481984)"
    using mean_six_035 unfolding replicate_six .
  have mm6: "minmax_element [?v, ?v, ?v, ?v, ?v, ?v] = Some (?v, ?v)"
    by simp
  have o6: "report [(''A'', [?v, ?v, ?v, ?v, ?v, ?v])] = ''A=0.3/0.4/0.3\<newline>''"
    unfolding report_def report_line_def by (simp only: list.map snd_conv fst_conv mm6 m6
        fmt_035 option.case prod.case concat.simps) simp
  have a: "main (single_file ''A=0.35\<newline>A=0.35\<newline>A=0.35\<newline>A=0.35\<newline>A=0.35\<newline>A=0.35\<newline>'')
     = Inr \<lparr>exit_code = 0, stdout = ''A=0.3/0.4/0.3\<newline>'', stderr = []\<rparr>"
    by (simp add: main_single_file l6 r6 o6 del: read_loop.simps)
  have l: "getlines ''A=nan\<newline>'' = [''A=nan'']" by code_simp
  have r: "read_loop [] [''A=nan''] = Inr [(''A'', [NaN False])]"
    by (simp add: process_line_def stod_nan)
  have m: "mean_of [NaN False] = NaN False"
    by (simp add: mean_of_def accumulate_def)
  have o: "report [(''A'', [NaN False])] = ''A=nan/nan/nan\<newline>''"
    by (simp add: report_def report_line_def m show_sign_def)
  have b: "main (single_file ''A=nan\<newline>'')
       = Inr \<lparr>exit_code = 0, stdout = ''A=nan/nan/nan\<newline>'', stderr = []\<rparr>"
    by (simp add: main_single_file l r o del: read_loop.simps)
  show ?thesis
    using a b m by (simp add: read_fixed1_values dle_def)
qed

theorem report_entries_ordered_witness:
  "main (single_file ''A=10.0\<newline>B=20.0\<newline>A=5.0\<newline>'')
     = Inr \<lparr>exit_code = 0, stdout = ''A=5.0/7.5/10.0\<newline>B=20.0/20.0/20.0\<newline>'',
            stderr = []\<rparr>
   \<and> read_loop [] (getlines ''A=10.0\<newline>B=20.0\<newline>A=5.0\<newline>'')
       = Inr [(''A'', [Finite False 10, Finite False 5]), (''B'', [Finite False 20])]
   \<and> minmax_element [Finite False 10, Finite False 5] = Some (Finite False 5, Finite False 10)
   \<and> mean_of [Finite False 10, Finite False 5] = Finite False (15 / 2)
   \<and> dle (Finite False 5) (Finite False 10)
   \<and> dle (Finite False 5) (Finite False 5) \<and> dle (Finite False 10) (Finite False 10)
   \<and> 5 - mean_tolerance 2 10 \<le> 15 / 2 \<and> 15 / 2 \<le> 10 + mean_tolerance 2 10
   \<and> read_fixed1 ''5.0'' = Some 5 \<and> read_fixed1 ''7.5'' = Some (15 / 2)
   \<and> read_fixed1 ''10.0'' = Some 10
   \<and> 5 - 1 / 10 - mean_tolerance 2 (10 + 1 / 20) \<le> 15 / 2
   \<and> 15 / 2 \<le> 10 + 1 / 10 + mean_tolerance 2 (10 + 1 / 20)"
proof -
  let ?c = "''A=10.0\<newline>B=20.0\<newline>A=5.0\<newline>''"
  let ?temps = "[Finite False 10, Finite False 5]"
  have l: "getlines ?c = [''A=10.0'', ''B=20.0'', ''A=5.0'']" by code_simp
  have rl: "read_loop [] [''A=10.0'', ''B=20.0'', ''A=5.0'']
      = Inr [(''A'', ?temps), (''B'', [Finite False 20])]"
    by (simp add: process_line_def stod_values)
  have r: "read_loop [] (getlines ?c) = Inr [(''A'', ?temps), (''B'', [Finite False 20])]"
    by (simp only: l rl)
  have o: "report [(''A'', ?temps), (''B'', [Finite False 20])]
      = ''A=5.0/7.5/10.0\<newline>B=20.0/20.0/20.0\<newline>''"
    by (simp add: report_def report_line_def mean_values fmt_values signed_def
        del: fmt_fixed1.simps)
  have h: "main (single_file ?c)
     = Inr \<lparr>exit_code = 0, stdout = ''A=5.0/7.5/10.0\<newline>B=20.0/20.0/20.0\<newline>'',
            stderr = []\<rparr>"
    by (simp add: main_single_file l rl o del: read_loop.simps)
  have mm: "minmax_element ?temps = Some (Finite False 5, Finite False 10)"
    by (simp add: signed_def)
  have mean: "mean_of ?temps = Finite False (15 / 2)" by (rule mean_values)
  have eq: "(Some (Finite False 5, Finite False 10) = Some (mn, mx))
      \<longleftrightarrow> (mn = Finite False 5 \<and> mx = Finite False 10)" for mn mx
    by auto
  have len: "length ?temps = 2" by simp
  have e: "(''A'', ?temps) \<in> set [(''A'', ?temps), (''B'', [Finite False 20])]" by simp
  from report_entries_ordered[OF open_first_single_file h r e]
  have "dle (Finite False 5) (Finite False 10)
      \<and> dle (Finite False 5) (Finite False 5) \<and> dle (Finite False 10) (Finite False 10)"
    and "5 - mean_tolerance 2 10 \<le> 15 / 2 \<and> 15 / 2 \<le> 10 + mean_tolerance 2 10"
    and "5 - 1 / 10 - mean_tolerance 2 (10 + 1 / 20) \<le> 15 / 2
      \<and> 15 / 2 \<le> 10 + 1 / 10 + mean_tolerance 2 (10 + 1 / 20)"
    unfolding mm eq mean len
    by (simp_all add: signed_def fmt_values read_fixed1_values del: fmt_fixed1.simps)
      (elim conjE exE, linarith)
  with h r mm mean show ?thesis by (simp add: read_fixed1_values)
qed

text \<open>
  Claim C10 says that a line made of the delimiter and a number is a record of the
  empty key and that the empty key is the first line of the report. The line
  \<open>=5.0\<close> is stored under the empty key, and with a valid line \<open>B=1.0\<close> the
  report starts with \<open>=5.0/5.0/5.0\<close>; but with the line \<open>B=abc\<close> after it
  \<open>std::stod\<close> throws, and the run ends without any report.
\<close>

theorem empty_key_record_lost_when_other_value_unparseable:
  "process_line [] ''=5.0'' = Inr [([], [Finite False 5])]
   \<and> main (single_file ''=5.0\<newline>B=abc\<newline>'') = Inl Invalid_argument
   \<and> main (single_file ''B=1.0\<newline>=5.0\<newline>'')
       = Inr \<lparr>exit_code = 0, stdout = ''=5.0/5.0/5.0\<newline>B=1.0/1.0/1.0\<newline>'', stderr = []\<rparr>"
proof -
  have l1: "getlines ''=5.0\<newline>B=abc\<newline>'' = [''=5.0'', ''B=abc'']"
    and l2: "getlines ''B=1.0\<newline>=5.0\<newline>'' = [''B=1.0'', ''=5.0'']"
    by code_simp+
  have p: "process_line [] ''=5.0'' = Inr [([], [Finite False 5])]"
    by (simp add: process_line_def stod_values)
  have r1: "read_loop [] [''=5.0'', ''B=abc''] = Inl Invalid_argument"
    by (simp add: process_line_def stod_values stod_abc)
  have r2: "read_loop [] [''B=1.0'', ''=5.0'']
      = Inr [([], [Finite False 5]), (''B'', [Finite False 1])]"
    by (simp add: process_line_def stod_values)
  have o: "report [([], [Finite False 5]), (''B'', [Finite False 1])]
      = ''=5.0/5.0/5.0\<newline>B=1.0/1.0/1.0\<newline>''"
    by (simp add: report_def report_line_def mean_values fmt_values del: fmt_fixed1.simps)
  show ?thesis
    by (simp add: main_single_file l1 l2 p r1 r2 o del: read_loop.simps)
qed

end
